theory Spec2Isabelle
  imports Complex_Main "HOL-Library.Multiset"
begin

section \<open>Tensors\<close>

text \<open>
  The notebook computes on MXNet arrays of 32-bit floats. A rank-1 array is modelled
  as a list of reals, a rank-2 array as the list of its rows; arithmetic is exact, so
  rounding and overflow are outside the model. Shapes are taken to agree wherever
  MXNet would demand it.
\<close>

type_synonym vec = "real list"

definition nd_add :: "vec \<Rightarrow> vec \<Rightarrow> vec" where
  "nd_add u v = map2 (+) u v"

definition nd_mul :: "vec \<Rightarrow> vec \<Rightarrow> vec" where
  "nd_mul u v = map2 (*) u v"

definition nd_scale_div :: "vec \<Rightarrow> real \<Rightarrow> vec" where
  "nd_scale_div v c = map (\<lambda>x. x / c) v"

definition nd_maximum :: "real \<Rightarrow> real \<Rightarrow> real" where
  "nd_maximum x y = max x y"

definition nd_norm :: "vec \<Rightarrow> real" where
  "nd_norm v = sqrt (sum_list (map (\<lambda>x. x * x) v))"

text \<open>
  Indexing an array with an array of positions, \<^verbatim>\<open>xs[idx]\<close>. A position
  outside the array has no defined result; the model returns \<open>None\<close> for it.
\<close>

definition gather :: "'a list \<Rightarrow> nat list \<Rightarrow> 'a list option" where
  "gather xs idx =
     (if \<forall>i \<in> set idx. i < length xs then Some (map (\<lambda>i. xs ! i) idx) else None)"

section \<open>The decoder\<close>

text \<open>
  \<^verbatim>\<open>DotDecoder.forward(h_users, h_items, users, items)\<close>: the parameter
  \<^verbatim>\<open>node_biases\<close> has \<open>num_nodes + 1\<close> entries and is read at \<open>id + 1\<close>.
\<close>

definition DotDecoder_forward ::
  "real list \<Rightarrow> vec list \<Rightarrow> vec list \<Rightarrow> nat list \<Rightarrow> nat list \<Rightarrow> real list option" where
  "DotDecoder_forward biases h_users h_items users items =
     (case gather biases (map (\<lambda>u. u + 1) users) of
        None \<Rightarrow> None
      | Some user_biases \<Rightarrow>
          (case gather biases (map (\<lambda>i. i + 1) items) of
             None \<Rightarrow> None
           | Some item_biases \<Rightarrow>
               Some (map2 (+)
                      (map2 (+) (map2 (\<lambda>a b. sum_list (nd_mul a b)) h_users h_items)
                                user_biases)
                      item_biases)))"

text \<open>The inner product the spec calls \<open>dot\<close>.\<close>

definition dot :: "vec \<Rightarrow> vec \<Rightarrow> real" where
  "dot u v = (\<Sum>k < min (length u) (length v). u ! k * v ! k)"


section \<open>The edge sampler\<close>

text \<open>
  \<^verbatim>\<open>batch_size = 1024\<close> is a global of the notebook. The functions below take the
  batch size as an argument, so that small instances can be evaluated.
\<close>

definition batch_size :: nat where
  "batch_size = 1024"

text \<open>The array slice \<^verbatim>\<open>xs[i:j]\<close> for \<open>0 \<le> i\<close>, \<open>0 \<le> j\<close>.\<close>

definition slice :: "'a list \<Rightarrow> nat \<Rightarrow> nat \<Rightarrow> 'a list" where
  "slice xs i j = take (j - i) (drop i xs)"

text \<open>
  The loop of \<^verbatim>\<open>EdgeSampler.__init__\<close>,
  \<^verbatim>\<open>for i in range(0, g.number_of_edges(), batch_size)\<close>. Each round appends one
  batch to each of the three lists; the model collects the three as one triple per round.
  \<open>E\<close> is \<^verbatim>\<open>g.number_of_edges()\<close>. A step of zero makes \<^verbatim>\<open>range\<close> raise.
\<close>

function batch_loop ::
  "nat \<Rightarrow> nat \<Rightarrow> nat list \<Rightarrow> nat list \<Rightarrow> nat list \<Rightarrow> real list \<Rightarrow> nat
     \<Rightarrow> (nat list \<times> nat list \<times> real list) list option" where
  "batch_loop B E shuffle_idx src_shuffled dst_shuffled rating_shuffled i =
     (if B = 0 then None
      else if i < E then
        (let j = min (i + B) E in
         case (gather src_shuffled (slice shuffle_idx i j),
               gather dst_shuffled (slice shuffle_idx i j),
               gather rating_shuffled (slice shuffle_idx i j)) of
           (Some s, Some d, Some r) \<Rightarrow>
             (case batch_loop B E shuffle_idx src_shuffled dst_shuffled rating_shuffled (i + B) of
                None \<Rightarrow> None
              | Some rest \<Rightarrow> Some ((s, d, r) # rest))
         | _ \<Rightarrow> None)
      else Some [])"
  by pat_completeness auto
termination
  by (relation "measure (\<lambda>(B, E, _, _, _, _, i). E - i)") auto

declare batch_loop.simps [simp del]

record 'nf EdgeSampler =
  src_batches :: "nat list list"
  dst_batches :: "nat list list"
  rating_batches :: "real list list"
  sampler :: "'nf list"
  es_i :: nat

text \<open>
  \<^verbatim>\<open>EdgeSampler.__init__(g, src, dst, rating)\<close>. \<open>shuffle_idx\<close> is the value of
  \<^verbatim>\<open>np.random.permutation(g.number_of_edges())\<close>, passed in. \<open>NeighborSampler n seeds\<close>
  stands for DGL's \<^verbatim>\<open>NeighborSampler(g, n, num_neighbors, num_layers, seed_nodes=seeds, ...)\<close>
  and is the list of NodeFlows that its iterator gives. \<^verbatim>\<open>nd.concat\<close> of no arrays
  raises, so the constructor fails when there is no batch.
\<close>

definition EdgeSampler_init ::
  "(nat \<Rightarrow> nat list \<Rightarrow> 'nf list) \<Rightarrow> nat \<Rightarrow> nat \<Rightarrow> nat list
     \<Rightarrow> nat list \<Rightarrow> nat list \<Rightarrow> real list \<Rightarrow> 'nf EdgeSampler option" where
  "EdgeSampler_init NeighborSampler B E shuffle_idx src dst rating =
     (case (gather src shuffle_idx, gather dst shuffle_idx, gather rating shuffle_idx) of
        (Some src_shuffled, Some dst_shuffled, Some rating_shuffled) \<Rightarrow>
          (case batch_loop B E shuffle_idx src_shuffled dst_shuffled rating_shuffled 0 of
             None \<Rightarrow> None
           | Some bs \<Rightarrow>
               if bs = [] then None
               else
                 (let seed_nodes = concat (concat (map (\<lambda>(s, d, r). [s, d]) bs)) in
                  Some \<lparr> src_batches = map (\<lambda>(s, d, r). s) bs,
                         dst_batches = map (\<lambda>(s, d, r). d) bs,
                         rating_batches = map (\<lambda>(s, d, r). r) bs,
                         sampler = NeighborSampler (B * 2) seed_nodes,
                         es_i = 0 \<rparr>))
      | _ \<Rightarrow> None)"

datatype error = StopIteration | IndexError

text \<open>
  \<^verbatim>\<open>EdgeSampler.__next__\<close>: the result or the exception, and the object after the call.
  The counter is advanced before the tuple is built, and \<^verbatim>\<open>next(self.sampler)\<close>
  raises \<^verbatim>\<open>StopIteration\<close> itself when DGL's iterator has no NodeFlow left.
\<close>

definition EdgeSampler_next ::
  "'nf EdgeSampler \<Rightarrow> (error + (nat list \<times> nat list \<times> real list \<times> 'nf)) \<times> 'nf EdgeSampler" where
  "EdgeSampler_next self =
     (if es_i self = length (src_batches self) then (Inl StopIteration, self)
      else
        (let idx = es_i self; self' = self\<lparr>es_i := es_i self + 1\<rparr> in
         if idx < length (src_batches self') \<and> idx < length (dst_batches self')
            \<and> idx < length (rating_batches self')
         then
           (case sampler self' of
              [] \<Rightarrow> (Inl StopIteration, self')
            | nf # rest \<Rightarrow>
                (Inr (src_batches self' ! idx, dst_batches self' ! idx,
                      rating_batches self' ! idx, nf),
                 self'\<lparr>sampler := rest\<rparr>))
         else (Inl IndexError, self')))"

text \<open>
  A \<^verbatim>\<open>for\<close> loop over the sampler (\<^verbatim>\<open>__iter__\<close> returns the object itself): the
  batches it runs its body on, the exception that ended it, and the object it leaves.
\<close>

function for_batches ::
  "'nf EdgeSampler \<Rightarrow> (nat list \<times> nat list \<times> real list \<times> 'nf) list \<times> error \<times> 'nf EdgeSampler" where
  "for_batches self =
     (case EdgeSampler_next self of
        (Inl e, self') \<Rightarrow> ([], e, self')
      | (Inr b, self') \<Rightarrow>
          (case for_batches self' of (bs, e, self'') \<Rightarrow> (b # bs, e, self'')))"
  by pat_completeness auto
termination
  apply (relation "measure (\<lambda>self. length (src_batches self) - es_i self)")
   apply simp
  apply (auto simp: EdgeSampler_next_def Let_def split: if_splits list.splits)
  done

declare for_batches.simps [simp del]

text \<open>
  The spec's words for the batches: an array cut into contiguous chunks of \<open>B\<close>
  entries, the last one possibly shorter.
\<close>

function chunks :: "nat \<Rightarrow> 'a list \<Rightarrow> 'a list list" where
  "chunks B xs = (if B = 0 \<or> xs = [] then [] else take B xs # chunks B (drop B xs))"
  by pat_completeness auto
termination
  by (relation "measure (\<lambda>(B, xs). length xs)") auto

declare chunks.simps [simp del]

section \<open>The training loop\<close>

text \<open>
  \<^verbatim>\<open>train\<close>. The body of its loop (forward pass, loss, backward pass and
  \<^verbatim>\<open>trainer.step\<close>) is the parameter \<open>step\<close>: from the model's parameters and
  a batch to the new parameters and the batch's loss. \<open>train_loop\<close> is the loop over the
  batches that the sampler gives, with the counters \<^verbatim>\<open>tot_loss\<close> and
  \<^verbatim>\<open>num_batches\<close>.
\<close>

type_synonym 'nf batch = "nat list \<times> nat list \<times> real list \<times> 'nf"

fun train_loop ::
  "('m \<Rightarrow> 'nf batch \<Rightarrow> 'm \<times> real) \<Rightarrow> 'nf batch list \<Rightarrow> 'm \<times> real \<times> nat \<Rightarrow> 'm \<times> real \<times> nat" where
  "train_loop step [] acc = acc"
| "train_loop step (b # bs) (model, tot_loss, num_batches) =
     (case step model b of
        (model', loss) \<Rightarrow> train_loop step bs (model', tot_loss + loss, num_batches + 1))"

text \<open>
  Each call constructs its own \<^verbatim>\<open>EdgeSampler\<close>, with the permutation drawn in
  that call. An exception other than \<^verbatim>\<open>StopIteration\<close> leaves the loop and the
  function; so does the division when no batch was run.
\<close>

definition train ::
  "(nat \<Rightarrow> nat list \<Rightarrow> 'nf list) \<Rightarrow> ('m \<Rightarrow> 'nf batch \<Rightarrow> 'm \<times> real) \<Rightarrow> 'm
     \<Rightarrow> nat \<Rightarrow> nat \<Rightarrow> nat list \<Rightarrow> nat list \<Rightarrow> nat list \<Rightarrow> real list
     \<Rightarrow> ('m \<times> real) option" where
  "train NeighborSampler step model B E shuffle_idx src dst rating =
     (case EdgeSampler_init NeighborSampler B E shuffle_idx src dst rating of
        None \<Rightarrow> None
      | Some it \<Rightarrow>
          (case for_batches it of
             (bs, e, it') \<Rightarrow>
               if e \<noteq> StopIteration then None
               else
                 (case train_loop step bs (model, 0, 0) of
                    (model', tot_loss, num_batches) \<Rightarrow>
                      if num_batches = 0 then None
                      else Some (model', tot_loss / real num_batches))))"

text \<open>
  The epochs, \<^verbatim>\<open>for epoch in range(50): loss = train(...)\<close>, for any number of
  epochs: one permutation per epoch, and the list of the losses. The evaluation on the
  test edges between two epochs changes nothing that \<^verbatim>\<open>train\<close> reads.
\<close>

fun run_epochs ::
  "(nat \<Rightarrow> nat list \<Rightarrow> 'nf list) \<Rightarrow> ('m \<Rightarrow> 'nf batch \<Rightarrow> 'm \<times> real) \<Rightarrow> 'm
     \<Rightarrow> nat \<Rightarrow> nat \<Rightarrow> nat list list \<Rightarrow> nat list \<Rightarrow> nat list \<Rightarrow> real list
     \<Rightarrow> real list option" where
  "run_epochs NeighborSampler step model B E [] src dst rating = Some []"
| "run_epochs NeighborSampler step model B E (p # ps) src dst rating =
     (case train NeighborSampler step model B E p src dst rating of
        None \<Rightarrow> None
      | Some (model', loss) \<Rightarrow>
          (case run_epochs NeighborSampler step model' B E ps src dst rating of
             None \<Rightarrow> None
           | Some losses \<Rightarrow> Some (loss # losses)))"

text \<open>
  The spec's words for one epoch. The edges are put in one order \<open>q\<close>, which is the
  drawn permutation applied twice as the constructor does; sources, destinations and
  ratings are cut into contiguous chunks of \<open>B\<close>; the sampler is run once on the
  endpoints of all batches, and batch \<open>k\<close> goes with its flow \<open>k\<close>. The epoch's loop body
  runs over these batches in this order, each on the parameters the one before left,
  and the epoch's loss is the mean of their losses. A run of epochs does this once per
  epoch, each with its own permutation and on the parameters the epoch before left.
\<close>

definition epoch_batches ::
  "(nat \<Rightarrow> nat list \<Rightarrow> 'nf list) \<Rightarrow> nat \<Rightarrow> nat \<Rightarrow> nat list
     \<Rightarrow> nat list \<Rightarrow> nat list \<Rightarrow> real list \<Rightarrow> 'nf batch list" where
  "epoch_batches NeighborSampler B E p src dst rating =
     (let q = map (\<lambda>k. p ! (p ! k)) [0..<E];
          sb = chunks B (map (\<lambda>e. src ! e) q);
          db = chunks B (map (\<lambda>e. dst ! e) q);
          rb = chunks B (map (\<lambda>e. rating ! e) q);
          flows = NeighborSampler (B * 2) (concat (map2 (@) sb db))
      in map (\<lambda>k. (sb ! k, db ! k, rb ! k, flows ! k)) [0..<length sb])"

definition epoch_result :: "('m \<Rightarrow> 'nf batch \<Rightarrow> 'm \<times> real) \<Rightarrow> 'm \<Rightarrow> 'nf batch list \<Rightarrow> 'm \<times> real" where
  "epoch_result step model bs =
     (case foldl (\<lambda>(m, t) b. case step m b of (m', l) \<Rightarrow> (m', t + l)) (model, 0) bs of
        (m', tot) \<Rightarrow> (m', tot / real (length bs)))"

fun epoch_losses ::
  "(nat \<Rightarrow> nat list \<Rightarrow> 'nf list) \<Rightarrow> ('m \<Rightarrow> 'nf batch \<Rightarrow> 'm \<times> real) \<Rightarrow> 'm
     \<Rightarrow> nat \<Rightarrow> nat \<Rightarrow> nat list list \<Rightarrow> nat list \<Rightarrow> nat list \<Rightarrow> real list
     \<Rightarrow> real list" where
  "epoch_losses NeighborSampler step model B E [] src dst rating = []"
| "epoch_losses NeighborSampler step model B E (p # ps) src dst rating =
     (case epoch_result step model (epoch_batches NeighborSampler B E p src dst rating) of
        (model', loss) \<Rightarrow> loss # epoch_losses NeighborSampler step model' B E ps src dst rating)"

section \<open>The encoder\<close>

subsection \<open>Gluon blocks\<close>

text \<open>
  \<^verbatim>\<open>nn.Embedding\<close> is a table of rows; the model takes its lookup as a function
  from the index to the row. \<^verbatim>\<open>nn.Dense(units)\<close> holds a weight matrix with one
  row per unit and a bias vector, and computes \<open>W x + b\<close>. \<^verbatim>\<open>nn.LeakyReLU(slope)\<close>
  keeps a positive entry and multiplies any other by the slope.
\<close>

type_synonym Embedding = "nat \<Rightarrow> vec"

record Dense =
  dense_weight :: "vec list"
  dense_bias :: vec

definition Dense_forward :: "Dense \<Rightarrow> vec \<Rightarrow> vec" where
  "Dense_forward D x = nd_add (map (\<lambda>w. sum_list (nd_mul w x)) (dense_weight D)) (dense_bias D)"

definition LeakyReLU :: "real \<Rightarrow> vec \<Rightarrow> vec" where
  "LeakyReLU slope v = map (\<lambda>x. if 0 < x then x else slope * x) v"

text \<open>\<^verbatim>\<open>nd.stack(*vs, axis=0).sum(axis=0)\<close> for a non-empty list of rows.\<close>

definition stack_sum :: "vec list \<Rightarrow> vec" where
  "stack_sum vs = (case vs of [] \<Rightarrow> [] | v # rest \<Rightarrow> foldl nd_add v rest)"

subsection \<open>Node features and initial embeddings\<close>

text \<open>
  One row of \<^verbatim>\<open>ndata\<close>: the node type (1 for a user, 0 for a movie), the
  categorical features as indices, and the genre vector.
\<close>

record ndata =
  ntype :: int
  age :: nat
  gender :: nat
  occupation :: nat
  zipcode :: nat
  year :: nat
  genre :: vec

record UserEmbedding =
  emb_age :: Embedding
  emb_gender :: Embedding
  emb_occupation :: Embedding
  emb_zip :: Embedding
  user_node_emb :: Embedding

text \<open>\<^verbatim>\<open>UserEmbedding.forward(ndata, nid)\<close>, for one node.\<close>

definition UserEmbedding_forward :: "UserEmbedding \<Rightarrow> ndata \<Rightarrow> nat \<Rightarrow> vec" where
  "UserEmbedding_forward self nd nid =
     (let h = user_node_emb self (nid + 1);
          extra_repr = [emb_age self (age nd), emb_gender self (gender nd),
                        emb_occupation self (occupation nd), emb_zip self (zipcode nd)]
      in nd_add h (stack_sum extra_repr))"

text \<open>
  \<^verbatim>\<open>proj_genre\<close> is the sequence of \<^verbatim>\<open>nn.Dense(feature_size)\<close> and
  \<^verbatim>\<open>nn.LeakyReLU(0.1)\<close>; the record holds its dense layer.
\<close>

record MovieEmbedding =
  emb_year :: Embedding
  proj_genre_dense :: Dense
  movie_node_emb :: Embedding

definition proj_genre :: "MovieEmbedding \<Rightarrow> vec \<Rightarrow> vec" where
  "proj_genre self x = LeakyReLU (1 / 10) (Dense_forward (proj_genre_dense self) x)"

text \<open>\<^verbatim>\<open>MovieEmbedding.forward(ndata, nid)\<close>, for one node.\<close>

definition MovieEmbedding_forward :: "MovieEmbedding \<Rightarrow> ndata \<Rightarrow> nat \<Rightarrow> vec" where
  "MovieEmbedding_forward self nd nid =
     (let h = movie_node_emb self (nid + 1);
          extra_repr = [emb_year self (year nd), proj_genre self (genre nd)]
      in nd_add h (stack_sum extra_repr))"

subsection \<open>The node update\<close>

record GraphSageNodeUpdate =
  upd_W :: Dense

text \<open>
  \<^verbatim>\<open>GraphSageNodeUpdate.forward\<close> for one node: \<open>h\<close>, \<open>h_agg\<close> and \<open>deg\<close> are
  the node's entries of the columns of these names. \<open>h_concat\<close> and \<open>h_new\<close> are the
  local variables of the source. These three definitions give the values with the
  quotients of real arithmetic; the method as the encoder runs it, with every division
  checked, follows them.
\<close>

definition h_concat :: "vec \<Rightarrow> vec \<Rightarrow> real \<Rightarrow> vec" where
  "h_concat h h_agg deg = h @ nd_scale_div h_agg (nd_maximum deg (1 / 1000000))"

definition h_new :: "GraphSageNodeUpdate \<Rightarrow> vec \<Rightarrow> vec \<Rightarrow> real \<Rightarrow> vec" where
  "h_new self h h_agg deg = LeakyReLU (1 / 10) (Dense_forward (upd_W self) (h_concat h h_agg deg))"

definition GraphSageNodeUpdate_forward :: "GraphSageNodeUpdate \<Rightarrow> vec \<Rightarrow> vec \<Rightarrow> real \<Rightarrow> vec" where
  "GraphSageNodeUpdate_forward self h h_agg deg =
     nd_scale_div (h_new self h h_agg deg)
                  (nd_maximum (nd_norm (h_new self h h_agg deg)) (1 / 1000000))"

text \<open>
  The division of an array by a number as the method performs it. With a divisor of zero
  float32 arithmetic gives entries that are infinite or not a number; the model gives no
  value then.
\<close>

definition nd_divide :: "vec \<Rightarrow> real \<Rightarrow> vec option" where
  "nd_divide v c = (if c = 0 then None else Some (map (\<lambda>x. x / c) v))"

text \<open>
  \<^verbatim>\<open>GraphSageNodeUpdate.forward\<close> for one node, line by line, with both of its
  divisions checked: \<open>hc\<close> is the source's \<^verbatim>\<open>h_concat\<close>, \<open>hn\<close> its
  \<^verbatim>\<open>h_new\<close>. This is the function that the encoder runs.
\<close>

definition GraphSageNodeUpdate_forward_checked ::
  "GraphSageNodeUpdate \<Rightarrow> vec \<Rightarrow> vec \<Rightarrow> real \<Rightarrow> vec option" where
  "GraphSageNodeUpdate_forward_checked self h h_agg deg =
     (case nd_divide h_agg (nd_maximum deg (1 / 1000000)) of
        None \<Rightarrow> None
      | Some quot \<Rightarrow>
          (let hc = h @ quot;
               hn = LeakyReLU (1 / 10) (Dense_forward (upd_W self) hc)
           in nd_divide hn (nd_maximum (nd_norm hn) (1 / 1000000))))"

subsection \<open>NodeFlows\<close>

text \<open>
  Modelled from the spec: DGL's \<^verbatim>\<open>NodeFlow\<close>, a class of the library that the
  notebook imports. A flow is a sequence of node layers; the last layer holds the seed
  nodes, layer \<open>0\<close> the nodes furthest from them. Every node of a layer carries its id in
  the flow (what \<^verbatim>\<open>nf.layer_nid\<close> gives; a graph node that the flow holds in two
  layers has two of them), the id of the graph node that it is a copy of (what
  \<^verbatim>\<open>nf.layer_parent_nid\<close> gives), its row of features (what
  \<^verbatim>\<open>copy_from_parent\<close> copies) and its entries of the columns \<^verbatim>\<open>h\<close>,
  \<^verbatim>\<open>h_agg\<close> and \<^verbatim>\<open>deg\<close>, each absent (\<open>None\<close>) until it is assigned. Block
  \<open>i\<close> records, for the node at position \<open>k\<close> of layer \<open>i + 1\<close>, the positions in layer
  \<open>i\<close> of its sampled in-neighbours.
\<close>

record node =
  nid :: nat
  parent_nid :: nat
  feat :: ndata
  data_h :: "vec option"
  data_h_agg :: "vec option"
  data_deg :: "real option"

record NodeFlow =
  layers :: "node list list"
  block_in :: "nat \<Rightarrow> nat \<Rightarrow> nat list"

definition num_layers :: "NodeFlow \<Rightarrow> nat" where
  "num_layers nf = length (layers nf)"

definition num_blocks :: "NodeFlow \<Rightarrow> nat" where
  "num_blocks nf = length (layers nf) - 1"

text \<open>
  Modelled from the spec: \<^verbatim>\<open>nf.apply_layer(i, func, v=ids)\<close> runs \<open>func\<close> on the
  nodes of layer \<open>i\<close> whose id is among \<open>ids\<close> and stores what it returns.
\<close>

definition apply_layer :: "NodeFlow \<Rightarrow> nat \<Rightarrow> (node \<Rightarrow> node) \<Rightarrow> nat list \<Rightarrow> NodeFlow" where
  "apply_layer nf i func v =
     nf\<lparr>layers := (layers nf)[i := map (\<lambda>n. if nid n \<in> set v then func n else n) (layers nf ! i)]\<rparr>"

text \<open>
  Modelled from the spec: \<^verbatim>\<open>nf.layer_in_degree(j)\<close>, the number of in-neighbours
  that block \<open>j - 1\<close> records for each node of layer \<open>j\<close>, and the assignment of a
  column \<^verbatim>\<open>deg\<close> to layer \<open>j\<close>.
\<close>

definition layer_in_degree :: "NodeFlow \<Rightarrow> nat \<Rightarrow> real list" where
  "layer_in_degree nf j = map (\<lambda>k. real (length (block_in nf (j - 1) k))) [0..<length (layers nf ! j)]"

definition set_deg :: "NodeFlow \<Rightarrow> nat \<Rightarrow> real list \<Rightarrow> NodeFlow" where
  "set_deg nf j degs =
     nf\<lparr>layers := (layers nf)[j := map (\<lambda>k. (layers nf ! j ! k)\<lparr>data_deg := Some (degs ! k)\<rparr>)
                                        [0..<length (layers nf ! j)]]\<rparr>"

text \<open>
  Modelled from the spec: \<^verbatim>\<open>nf.block_compute(i, FN.copy_src('h', 'h'), FN.sum('h', 'h_agg'))\<close>.
  Every in-neighbour sends its \<^verbatim>\<open>h\<close>; a node of layer \<open>i + 1\<close> gets as
  \<^verbatim>\<open>h_agg\<close> the elementwise sum of what it receives, the zero vector of width \<open>d\<close>
  when it receives nothing. An in-neighbour outside the layer or without \<^verbatim>\<open>h\<close>
  leaves \<^verbatim>\<open>h_agg\<close> absent.
\<close>

definition nd_sum :: "nat \<Rightarrow> vec list \<Rightarrow> vec" where
  "nd_sum d hs = foldl nd_add (replicate d 0) hs"

definition src_h :: "NodeFlow \<Rightarrow> nat \<Rightarrow> nat \<Rightarrow> vec option" where
  "src_h nf i p = (if p < length (layers nf ! i) then data_h (layers nf ! i ! p) else None)"

definition block_compute :: "nat \<Rightarrow> NodeFlow \<Rightarrow> nat \<Rightarrow> NodeFlow" where
  "block_compute d nf i =
     nf\<lparr>layers := (layers nf)[i + 1 :=
        map (\<lambda>k. (layers nf ! (i + 1) ! k)
                    \<lparr>data_h_agg := map_option (nd_sum d) (those (map (src_h nf i) (block_in nf i k)))\<rparr>)
            [0..<length (layers nf ! (i + 1))]]\<rparr>"

subsection \<open>The encoder's forward pass\<close>

record GraphSageEncoder =
  embedding_size :: nat
  user_layers :: "GraphSageNodeUpdate list"
  movie_layers :: "GraphSageNodeUpdate list"
  user_emb :: UserEmbedding
  movie_emb :: MovieEmbedding

text \<open>The ids of the nodes of layer \<open>i\<close> with a given type.\<close>

definition nodes_of_type :: "NodeFlow \<Rightarrow> nat \<Rightarrow> int \<Rightarrow> nat list" where
  "nodes_of_type nf i t = map nid (filter (\<lambda>n. ntype (feat n) = t) (layers nf ! i))"

text \<open>One round of the first loop of \<^verbatim>\<open>GraphSageEncoder.forward\<close>.\<close>

definition embed_layer :: "GraphSageEncoder \<Rightarrow> NodeFlow \<Rightarrow> nat \<Rightarrow> NodeFlow" where
  "embed_layer self nf i =
     (let user_nodes = nodes_of_type nf i 1;
          movie_nodes = nodes_of_type nf i 0;
          nf1 = (if 0 < length user_nodes
                 then apply_layer nf i
                        (\<lambda>n. n\<lparr>data_h := Some (UserEmbedding_forward (user_emb self) (feat n) (nid n))\<rparr>)
                        user_nodes
                 else nf)
      in if 0 < length movie_nodes
         then apply_layer nf1 i
                (\<lambda>n. n\<lparr>data_h := Some (MovieEmbedding_forward (movie_emb self) (feat n) (nid n))\<rparr>)
                movie_nodes
         else nf1)"

text \<open>
  A layer's update block run on one node: it reads the node's \<^verbatim>\<open>h\<close>,
  \<^verbatim>\<open>h_agg\<close> and \<^verbatim>\<open>deg\<close> and stores the new \<^verbatim>\<open>h\<close>. A missing block
  (\<^verbatim>\<open>self.user_layers[i]\<close> out of range), a missing column or a division by zero
  leaves no value.
\<close>

definition run_update :: "GraphSageNodeUpdate list \<Rightarrow> nat \<Rightarrow> node \<Rightarrow> node" where
  "run_update blocks i n =
     n\<lparr>data_h :=
         (case (data_h n, data_h_agg n, data_deg n) of
            (Some h, Some h_agg, Some deg) \<Rightarrow>
              if i < length blocks then GraphSageNodeUpdate_forward_checked (blocks ! i) h h_agg deg
              else None
          | _ \<Rightarrow> None)\<rparr>"

text \<open>One round of the second loop.\<close>

definition block_step :: "GraphSageEncoder \<Rightarrow> NodeFlow \<Rightarrow> nat \<Rightarrow> NodeFlow" where
  "block_step self nf i =
     (let nf1 = set_deg nf (i + 1) (layer_in_degree nf (i + 1));
          user_nodes = nodes_of_type nf1 (i + 1) 1;
          movie_nodes = nodes_of_type nf1 (i + 1) 0;
          nf2 = block_compute (embedding_size self) nf1 i;
          nf3 = (if 0 < length user_nodes
                 then apply_layer nf2 (i + 1) (run_update (user_layers self) i) user_nodes
                 else nf2)
      in if 0 < length movie_nodes
         then apply_layer nf3 (i + 1) (run_update (movie_layers self) i) movie_nodes
         else nf3)"

text \<open>
  \<^verbatim>\<open>GraphSageEncoder.forward\<close>: the flow after both loops, and the value returned,
  \<^verbatim>\<open>nf.layers[-1].data['h']\<close>. A flow has at least one layer.
\<close>

definition embed_all :: "GraphSageEncoder \<Rightarrow> NodeFlow \<Rightarrow> NodeFlow" where
  "embed_all self nf = foldl (embed_layer self) nf [0..<num_layers nf]"

definition encoder_run :: "GraphSageEncoder \<Rightarrow> NodeFlow \<Rightarrow> NodeFlow" where
  "encoder_run self nf = foldl (block_step self) (embed_all self nf) [0..<num_blocks nf]"

definition GraphSageEncoder_forward :: "GraphSageEncoder \<Rightarrow> NodeFlow \<Rightarrow> vec option list" where
  "GraphSageEncoder_forward self nf = map data_h (last (layers (encoder_run self nf)))"

subsection \<open>What the forward pass computes\<close>

text \<open>
  The embedding that the first loop stores for a node, and the update block that the
  second loop runs on a node at block \<open>i\<close>: both are chosen by the node's type.
\<close>

definition initial_embedding :: "GraphSageEncoder \<Rightarrow> node \<Rightarrow> vec" where
  "initial_embedding self n =
     (if ntype (feat n) = 1 then UserEmbedding_forward (user_emb self) (feat n) (nid n)
      else MovieEmbedding_forward (movie_emb self) (feat n) (nid n))"

definition update_block :: "GraphSageEncoder \<Rightarrow> node \<Rightarrow> nat \<Rightarrow> GraphSageNodeUpdate" where
  "update_block self n i =
     (if ntype (feat n) = 1 then user_layers self ! i else movie_layers self ! i)"

text \<open>
  What one round of the second loop leaves at position \<open>k\<close> of layer \<open>i + 1\<close>.
\<close>

definition step_node :: "GraphSageEncoder \<Rightarrow> NodeFlow \<Rightarrow> nat \<Rightarrow> nat \<Rightarrow> node" where
  "step_node self nf i k =
     (let n = (layers nf ! (i + 1) ! k)
                \<lparr>data_h_agg := map_option (nd_sum (embedding_size self))
                                         (those (map (src_h nf i) (block_in nf i k))),
                 data_deg := Some (real (length (block_in nf i k)))\<rparr>
      in if ntype (feat n) = 1 then run_update (user_layers self) i n
         else if ntype (feat n) = 0 then run_update (movie_layers self) i n
         else n)"

text \<open>
  A well-formed flow: it has a layer; the ids of a layer are distinct and every node is a
  user or a movie; the in-neighbours that a block records are positions of the layer
  below.
\<close>

definition layer_ok :: "node list \<Rightarrow> bool" where
  "layer_ok l \<longleftrightarrow> distinct (map nid l) \<and> (\<forall>n \<in> set l. ntype (feat n) = 1 \<or> ntype (feat n) = 0)"

text \<open>
  The spec's layered aggregation, in the numbering of the flow (layer \<open>0\<close> is the
  deepest): the nodes of the deepest layer have their initial embedding; a node of
  layer \<open>i + 1\<close> has the update of its own initial embedding with the sum of the
  embeddings of layer \<open>i\<close> over its recorded in-neighbours and their number.
\<close>

fun layer_embedding :: "GraphSageEncoder \<Rightarrow> NodeFlow \<Rightarrow> nat \<Rightarrow> nat \<Rightarrow> vec" where
  "layer_embedding self nf 0 k = initial_embedding self (layers nf ! 0 ! k)"
| "layer_embedding self nf (Suc i) k =
     GraphSageNodeUpdate_forward (update_block self (layers nf ! Suc i ! k) i)
       (initial_embedding self (layers nf ! Suc i ! k))
       (nd_sum (embedding_size self) (map (layer_embedding self nf i) (block_in nf i k)))
       (real (length (block_in nf i k)))"

text \<open>
  The node at position \<open>k\<close> of layer \<open>i\<close> once the first loop and \<open>j\<close> rounds of
  the second have run.
\<close>

definition node_after :: "GraphSageEncoder \<Rightarrow> NodeFlow \<Rightarrow> nat \<Rightarrow> nat \<Rightarrow> nat \<Rightarrow> node" where
  "node_after self nf j i k =
     (let n = layers nf ! i ! k in
      if i = 0 \<or> j < i then n\<lparr>data_h := Some (initial_embedding self n)\<rparr>
      else n\<lparr>data_h := Some (layer_embedding self nf i k),
             data_h_agg := Some (nd_sum (embedding_size self)
                                  (map (layer_embedding self nf (i - 1)) (block_in nf (i - 1) k))),
             data_deg := Some (real (length (block_in nf (i - 1) k)))\<rparr>)"

definition flow_ok :: "NodeFlow \<Rightarrow> bool" where
  "flow_ok nf \<longleftrightarrow>
     layers nf \<noteq> [] \<and> (\<forall>l \<in> set (layers nf). layer_ok l)
     \<and> (\<forall>i k. i + 1 < length (layers nf) \<longrightarrow> k < length (layers nf ! (i + 1))
            \<longrightarrow> (\<forall>p \<in> set (block_in nf i k). p < length (layers nf ! i)))"


section \<open>The neighbour sampler\<close>

text \<open>
  Modelled from the spec: the Graph Store and the Neighbor Sampler. The notebook gets its
  flows from DGL's \<^verbatim>\<open>NeighborSampler\<close>, called with \<^verbatim>\<open>num_neighbors\<close> as the
  fan-out and \<^verbatim>\<open>add_self_loop=True\<close>; the sampler itself is not part of the
  repository. The Graph Store gives the neighbours of a node. The random source is a
  sequence of numbers \<open>rnd\<close>, read at a counter \<open>t\<close> that every draw advances.
\<close>

record GraphStore =
  neighbors :: "nat \<Rightarrow> nat list"

text \<open>
  Modelled from the spec: \<open>m\<close> draws without replacement from \<open>pool\<close>; a drawn entry leaves
  the pool.
\<close>

fun sample :: "(nat \<Rightarrow> nat) \<Rightarrow> nat \<Rightarrow> nat \<Rightarrow> nat list \<Rightarrow> nat list \<times> nat" where
  "sample rnd t 0 pool = ([], t)"
| "sample rnd t (Suc m) pool =
     (if pool = [] then ([], t)
      else
        (let j = rnd t mod length pool in
         case sample rnd (t + 1) m (take j pool @ drop (j + 1) pool) of
           (rest, t') \<Rightarrow> (pool ! j # rest, t')))"

text \<open>
  Modelled from the spec: for every node \<open>v\<close> of a layer, \<open>min K |neighbors v|\<close>
  neighbours are sampled from the full neighbour set, and the block recorded for \<open>v\<close> is
  these together with \<open>v\<close> itself (the self-loop).
\<close>

fun sample_layer ::
  "GraphStore \<Rightarrow> (nat \<Rightarrow> nat) \<Rightarrow> nat \<Rightarrow> nat \<Rightarrow> nat list \<Rightarrow> (nat \<times> nat list) list \<times> nat" where
  "sample_layer g rnd K t [] = ([], t)"
| "sample_layer g rnd K t (v # vs) =
     (case sample rnd t (min K (length (neighbors g v))) (neighbors g v) of
        (sampled, t1) \<Rightarrow>
          (case sample_layer g rnd K t1 vs of
             (bs, t2) \<Rightarrow> ((v, sampled @ (if v \<in> set sampled then [] else [v])) # bs, t2)))"

text \<open>
  Modelled from the spec: the layers and blocks from a given layer on, \<open>L\<close> layers deep;
  the next layer is the deduplicated union of the blocks.
\<close>

fun build_layers ::
  "GraphStore \<Rightarrow> (nat \<Rightarrow> nat) \<Rightarrow> nat \<Rightarrow> nat \<Rightarrow> nat \<Rightarrow> nat list
     \<Rightarrow> nat list list \<times> (nat \<times> nat list) list list" where
  "build_layers g rnd K 0 t layer = ([layer], [])"
| "build_layers g rnd K (Suc L) t layer =
     (case sample_layer g rnd K t layer of
        (bs, t1) \<Rightarrow>
          (case build_layers g rnd K L t1 (remdups (concat (map snd bs))) of
             (ls, bls) \<Rightarrow> (layer # ls, bs # bls)))"

text \<open>
  Modelled from the spec: \<open>build_flow\<close>. Layer \<open>0\<close> is the deduplicated list of seed
  nodes; block \<open>i\<close> lies between layer \<open>i\<close> and layer \<open>i + 1\<close>.
\<close>

record Flow =
  flow_layers :: "nat list list"
  flow_blocks :: "(nat \<times> nat list) list list"

definition build_flow :: "GraphStore \<Rightarrow> (nat \<Rightarrow> nat) \<Rightarrow> nat list \<Rightarrow> nat \<Rightarrow> nat \<Rightarrow> Flow" where
  "build_flow g rnd seed_nodes K L =
     (case build_layers g rnd K L 0 (remdups seed_nodes) of
        (ls, bls) \<Rightarrow> \<lparr> flow_layers = ls, flow_blocks = bls \<rparr>)"

text \<open>
  What holds of a recorded block \<open>(v, ns)\<close>: at most \<open>K\<close> entries other than \<open>v\<close>, hence
  at most \<open>K + 1\<close> entries; \<open>v\<close> among them; every entry a neighbour of \<open>v\<close> or \<open>v\<close>.
\<close>

definition block_ok :: "GraphStore \<Rightarrow> nat \<Rightarrow> nat \<times> nat list \<Rightarrow> bool" where
  "block_ok g K b \<longleftrightarrow>
     (case b of (v, ns) \<Rightarrow>
        length ns \<le> K + 1 \<and> length (filter (\<lambda>u. u \<noteq> v) ns) \<le> K \<and> v \<in> set ns
        \<and> set ns \<subseteq> set (neighbors g v) \<union> {v})"

text \<open>
  The graph of the spec's end-to-end scenario: users \<open>21, 22, 23\<close>, items \<open>31, 32\<close>, and
  the edges \<open>21-31\<close>, \<open>21-32\<close>, \<open>22-31\<close>; a random source that always draws \<open>0\<close>.
\<close>

definition ex_graph :: GraphStore where
  "ex_graph = \<lparr> neighbors = (\<lambda>v. if v = 21 then [31, 32] else if v = 22 then [31]
                               else if v = 31 then [21, 22] else if v = 32 then [21] else []) \<rparr>"

definition ex_rnd :: "nat \<Rightarrow> nat" where
  "ex_rnd t = 0"


section \<open>A small flow\<close>

text \<open>
  An encoder of width \<open>1\<close> with one update block per type, and a flow of two layers:
  a user and a movie in the deepest layer, a user and a movie as seeds. The seed user
  has both nodes of the deepest layer as in-neighbours, the seed movie has none. The two
  users are copies of the graph's user \<open>21\<close>, with the ids \<open>10\<close> and \<open>12\<close> in the flow; the
  two movies are copies of the graph's movie \<open>31\<close>, with the ids \<open>11\<close> and \<open>13\<close>.
  \<open>ex_enc_rows\<close> is the same encoder with a node table for users whose row \<open>i\<close> is
  \<open>[i]\<close>, and \<open>ex_nf_ids\<close> is a flow of the same shape with the ids that DGL numbers a
  flow with, \<open>0\<close> and \<open>1\<close> in the deepest layer and \<open>2\<close> and \<open>3\<close> in the seed layer, in
  which every seed has itself and its neighbour as in-neighbours.
\<close>

definition ex_user :: UserEmbedding where
  "ex_user = \<lparr> emb_age = (\<lambda>a. [1]), emb_gender = (\<lambda>g. [2]), emb_occupation = (\<lambda>c. [0]),
               emb_zip = (\<lambda>z. [0]), user_node_emb = (\<lambda>i. [1]) \<rparr>"

definition ex_movie :: MovieEmbedding where
  "ex_movie = \<lparr> emb_year = (\<lambda>y. [1]),
                proj_genre_dense = \<lparr> dense_weight = [[1]], dense_bias = [0] \<rparr>,
                movie_node_emb = (\<lambda>i. [0]) \<rparr>"

definition ex_update :: GraphSageNodeUpdate where
  "ex_update = \<lparr> upd_W = \<lparr> dense_weight = [[1, 1]], dense_bias = [0] \<rparr> \<rparr>"

definition ex_enc :: GraphSageEncoder where
  "ex_enc = \<lparr> embedding_size = 1, user_layers = [ex_update], movie_layers = [ex_update],
              user_emb = ex_user, movie_emb = ex_movie \<rparr>"

definition ex_enc_rows :: GraphSageEncoder where
  "ex_enc_rows = ex_enc\<lparr>user_emb := ex_user\<lparr>user_node_emb := (\<lambda>i. [real i])\<rparr>\<rparr>"

definition ex_node :: "nat \<Rightarrow> int \<Rightarrow> node" where
  "ex_node i t =
     \<lparr> nid = i,
       parent_nid = (if t = 1 then 21 else 31),
       feat = \<lparr> ntype = t, age = 0, gender = 0, occupation = 0, zipcode = 0, year = 0, genre = [-1] \<rparr>,
       data_h = None, data_h_agg = None, data_deg = None \<rparr>"

definition ex_nf :: NodeFlow where
  "ex_nf = \<lparr> layers = [[ex_node 10 1, ex_node 11 0], [ex_node 12 1, ex_node 13 0]],
             block_in = (\<lambda>i k. if i = 0 \<and> k = 0 then [0, 1] else []) \<rparr>"


definition ex_nf_ids :: NodeFlow where
  "ex_nf_ids = \<lparr> layers = [[ex_node 0 1, ex_node 1 0], [ex_node 2 1, ex_node 3 0]],
                 block_in = (\<lambda>i k. if i = 0 \<and> k < 2 then [0, 1] else []) \<rparr>"

section \<open>Properties\<close>

lemma sum_list_nd_mul: "sum_list (nd_mul u v) = dot u v"
proof -
  have "sum_list (nd_mul u v) = (\<Sum>k < length (nd_mul u v). nd_mul u v ! k)"
    by (simp add: sum_list_sum_nth atLeast0LessThan)
  also have "\<dots> = (\<Sum>k < min (length u) (length v). u ! k * v ! k)"
    by (rule sum.cong) (simp_all add: nd_mul_def)
  finally show ?thesis by (simp add: dot_def)
qed

text \<open>
  C9. For a batch of \<open>n\<close> pairs whose ids are node ids of the graph, the decoder's
  score at every position \<open>t\<close> is the inner product of the two embeddings plus the
  bias of the source id plus the bias of the destination id. The bias of a node id is
  its entry in one vector, the parameter \<^verbatim>\<open>node_biases\<close> without its first slot,
  and the same vector serves user ids and item ids.
\<close>

theorem DotDecoder_score:
  assumes "length biases = num_nodes + 1"
    and "length h_users = n" and "length h_items = n"
    and "length users = n" and "length items = n"
    and "\<forall>u \<in> set users. u < num_nodes" and "\<forall>i \<in> set items. i < num_nodes"
  shows "\<exists>score. DotDecoder_forward biases h_users h_items users items = Some score
           \<and> length score = n
           \<and> (\<forall>t < n. score ! t =
                 dot (h_users ! t) (h_items ! t)
                 + tl biases ! (users ! t) + tl biases ! (items ! t))"
proof -
  have gu: "gather biases (map (\<lambda>u. u + 1) users) = Some (map (\<lambda>u. biases ! (u + 1)) users)"
    using assms(1,6) by (simp add: gather_def comp_def)
  have gi: "gather biases (map (\<lambda>i. i + 1) items) = Some (map (\<lambda>i. biases ! (i + 1)) items)"
    using assms(1,7) by (simp add: gather_def comp_def)
  have tlb: "\<And>k. k < num_nodes \<Longrightarrow> tl biases ! k = biases ! (k + 1)"
    using assms(1) by (simp add: nth_tl)
  show ?thesis
    unfolding DotDecoder_forward_def gu gi
    using assms(2-7) by (simp add: sum_list_nd_mul tlb)
qed

theorem DotDecoder_score_witness:
  "DotDecoder_forward [0, 1, 2, 3] [[1, 2]] [[3, 4]] [0] [2] = Some [15]"
proof -
  have "\<exists>score. DotDecoder_forward [0, 1, 2, 3] [[1, 2]] [[3, 4]] [0] [2] = Some score
           \<and> length score = 1
           \<and> (\<forall>t < 1. score ! t =
                 dot ([[1, 2]] ! t) ([[3, 4]] ! t)
                 + tl [0, 1, 2, 3] ! ([0] ! t) + tl [0, 1, 2, 3] ! ([2] ! t))"
    by (rule DotDecoder_score [where num_nodes = 3]) simp_all
  then obtain score where s: "DotDecoder_forward [0, 1, 2, 3] [[1, 2]] [[3, 4]] [0] [2] = Some score"
    and l: "length score = 1"
    and v: "score ! 0 = dot [1, 2] [3, 4] + 1 + 3"
    by auto
  have "dot [1, 2] [3, 4] = 11"
    by (simp add: dot_def lessThan_Suc numeral_2_eq_2)
  with v have "score ! 0 = 15" by simp
  with l have "score = [15]" by (cases score) auto
  with s show ?thesis by simp
qed

subsection \<open>Chunks\<close>

lemma chunks_Nil [simp]: "chunks B [] = []"
  by (simp add: chunks.simps)

lemma concat_chunks: "0 < B \<Longrightarrow> concat (chunks B xs) = xs"
proof (induction B xs rule: chunks.induct)
  case (1 B xs)
  then show ?case by (subst chunks.simps) auto
qed

lemma chunks_map: "chunks B (map f xs) = map (map f) (chunks B xs)"
proof (induction B xs rule: chunks.induct)
  case (1 B xs)
  show ?case
  proof (cases "B = 0 \<or> xs = []")
    case True
    then show ?thesis by (auto simp: chunks.simps [of B])
  next
    case False
    with 1 have "chunks B (map f (drop B xs)) = map (map f) (chunks B (drop B xs))" by simp
    with False show ?thesis
      by (simp add: chunks.simps [of B xs] chunks.simps [of B "map f xs"] take_map drop_map)
  qed
qed

lemma nth_chunks:
  "0 < B \<Longrightarrow> k * B < length xs \<Longrightarrow> chunks B xs ! k = take B (drop (k * B) xs)"
proof (induction B xs arbitrary: k rule: chunks.induct)
  case (1 B xs)
  from "1.prems" have ne: "\<not> (B = 0 \<or> xs = [])" by auto
  show ?case
  proof (cases k)
    case 0
    with ne show ?thesis by (simp add: chunks.simps [of B xs])
  next
    case (Suc m)
    with "1.prems" have "m * B < length (drop B xs)" by simp
    with 1 ne have "chunks B (drop B xs) ! m = take B (drop (m * B) (drop B xs))" by simp
    with ne Suc show ?thesis by (simp add: chunks.simps [of B xs] add.commute)
  qed
qed

lemma length_chunks: "0 < B \<Longrightarrow> length (chunks B xs) = (length xs + B - 1) div B"
proof (induction B xs rule: chunks.induct)
  case (1 B xs)
  show ?case
  proof (cases "xs = []")
    case True
    with "1.prems" show ?thesis by (simp add: chunks.simps [of B])
  next
    case False
    with 1 have ih: "length (chunks B (drop B xs)) = (length xs - B + B - 1) div B" by simp
    show ?thesis
    proof (cases "B \<le> length xs")
      case True
      then have "(length xs + B - 1) div B = Suc ((length xs - B + B - 1) div B)"
        using "1.prems" by (simp add: le_div_geq)
      with False ih "1.prems" show ?thesis by (simp add: chunks.simps [of B xs])
    next
      case False
      note short = this
      with \<open>xs \<noteq> []\<close> "1.prems" have "(length xs + B - 1) div B = 1"
        by (cases xs) (simp_all add: le_div_geq)
      moreover from short have "chunks B (drop B xs) = []" by (simp add: chunks.simps [of B "drop B xs"])
      ultimately show ?thesis using \<open>xs \<noteq> []\<close> "1.prems" by (simp add: chunks.simps [of B xs])
    qed
  qed
qed

lemma chunk_index:
  assumes "0 < (B::nat)" and "k < (n + B - 1) div B"
  shows "k * B < n"
proof (rule ccontr)
  assume "\<not> k * B < n"
  define m where "m = k * B"
  with \<open>\<not> k * B < n\<close> have "n \<le> m" by simp
  with assms(1) have "n + B - 1 < m + B" by arith
  then have "n + B - 1 < (k + 1) * B" by (simp add: m_def)
  then have "(n + B - 1) div B < k + 1"
    using assms(1) by (simp add: less_mult_imp_div_less)
  with assms(2) show False by simp
qed

subsection \<open>The batches of the edge sampler\<close>

lemma slice_chunk:
  "i < E \<Longrightarrow> length xs = E \<Longrightarrow> slice xs i (min (i + B) E) = take B (drop i xs)"
  by (simp add: slice_def min_def)

lemma batch_loop_chunks:
  assumes "0 < B" and "length sh = E"
    and "\<forall>x \<in> set sh. x < length s \<and> x < length d \<and> x < length r"
  shows "batch_loop B E sh s d r i =
           Some (map (\<lambda>c. (map (\<lambda>x. s ! x) c, map (\<lambda>x. d ! x) c, map (\<lambda>x. r ! x) c))
                     (chunks B (drop i sh)))"
  using assms
proof (induction B E sh s d r i rule: batch_loop.induct)
  case (1 B E sh s d r i)
  show ?case
  proof (cases "i < E")
    case False
    with "1.prems" show ?thesis
      by (simp add: batch_loop.simps [of B E sh s d r i] chunks.simps [of B "drop i sh"])
  next
    case True
    let ?c = "take B (drop i sh)"
    have sl: "slice sh i (min (i + B) E) = ?c"
      using True "1.prems"(2) by (rule slice_chunk)
    have sub: "set ?c \<subseteq> set sh"
      by (meson set_drop_subset set_take_subset subset_trans)
    with "1.prems"(3) have g:
      "gather s ?c = Some (map (\<lambda>x. s ! x) ?c)"
      "gather d ?c = Some (map (\<lambda>x. d ! x) ?c)"
      "gather r ?c = Some (map (\<lambda>x. r ! x) ?c)"
      by (auto simp: gather_def)
    have ih: "batch_loop B E sh s d r (i + B) =
           Some (map (\<lambda>c. (map (\<lambda>x. s ! x) c, map (\<lambda>x. d ! x) c, map (\<lambda>x. r ! x) c))
                     (chunks B (drop (i + B) sh)))"
      by (rule "1.IH" [OF _ True refl refl g(1) [folded sl] refl g(2) [folded sl] g(3) [folded sl]])
         (use "1.prems" in auto)
    have ne: "drop i sh \<noteq> []" using True "1.prems"(2) by simp
    have "chunks B (drop i sh) = ?c # chunks B (drop (i + B) sh)"
      using ne "1.prems"(1) by (simp add: chunks.simps [of B "drop i sh"] add.commute)
    with True "1.prems"(1) sl g ih show ?thesis
      by (simp add: batch_loop.simps [of B E sh s d r i])
  qed
qed

lemma set_chunks: "c \<in> set (chunks B xs) \<Longrightarrow> set c \<subseteq> set xs"
proof (induction B xs rule: chunks.induct)
  case (1 B xs)
  show ?case
  proof (cases "B = 0 \<or> xs = []")
    case True
    with "1.prems" show ?thesis by (auto simp: chunks.simps [of B xs])
  next
    case False
    with "1.prems" have "c = take B xs \<or> c \<in> set (chunks B (drop B xs))"
      by (simp add: chunks.simps [of B xs])
    then show ?thesis
    proof
      assume "c = take B xs"
      then show ?thesis by (simp add: set_take_subset)
    next
      assume "c \<in> set (chunks B (drop B xs))"
      with 1 False have "set c \<subseteq> set (drop B xs)" by simp
      then show ?thesis using set_drop_subset by fast
    qed
  qed
qed

lemma chunks_eq_Nil: "0 < B \<Longrightarrow> chunks B xs = [] \<longleftrightarrow> xs = []"
  by (simp add: chunks.simps [of B xs])

lemma perm_range:
  assumes "mset sh = mset [0..<E]"
  shows "length sh = E" and "set sh = {0..<E}"
proof -
  from assms have "size (mset sh) = size (mset [0..<E])" by simp
  then show "length sh = E" by simp
  from assms have "set_mset (mset sh) = set_mset (mset [0..<E])" by simp
  then show "set sh = {0..<E}" by simp
qed

lemma concat_pairs:
  "concat (concat (map (\<lambda>c. [a c, b c]) cs)) = concat (map (\<lambda>c. a c @ b c) cs)"
  by (induction cs) simp_all

lemma EdgeSampler_init_eq:
  assumes "0 < B" and "0 < E" and "mset sh = mset [0..<E]"
    and "length src = E" and "length dst = E" and "length rating = E"
  shows "EdgeSampler_init NS B E sh src dst rating =
     Some \<lparr> src_batches = map (map (\<lambda>x. src ! (sh ! x))) (chunks B sh),
            dst_batches = map (map (\<lambda>x. dst ! (sh ! x))) (chunks B sh),
            rating_batches = map (map (\<lambda>x. rating ! (sh ! x))) (chunks B sh),
            sampler = NS (B * 2)
              (concat (map (\<lambda>c. map (\<lambda>x. src ! (sh ! x)) c @ map (\<lambda>x. dst ! (sh ! x)) c)
                           (chunks B sh))),
            es_i = 0 \<rparr>"
proof -
  note pr = perm_range [OF assms(3)]
  have inr: "\<And>x. x \<in> set sh \<Longrightarrow> x < E" using pr(2) by simp
  define ssh where "ssh = map (\<lambda>i. src ! i) sh"
  define dsh where "dsh = map (\<lambda>i. dst ! i) sh"
  define rsh where "rsh = map (\<lambda>i. rating ! i) sh"
  have g: "gather src sh = Some ssh" "gather dst sh = Some dsh" "gather rating sh = Some rsh"
    using assms(4-6) inr by (simp_all add: gather_def ssh_def dsh_def rsh_def)
  have len: "length ssh = E" "length dsh = E" "length rsh = E"
    using pr(1) by (simp_all add: ssh_def dsh_def rsh_def)
  have nths: "\<And>x. x \<in> set sh \<Longrightarrow> ssh ! x = src ! (sh ! x)"
    and nthd: "\<And>x. x \<in> set sh \<Longrightarrow> dsh ! x = dst ! (sh ! x)"
    and nthr: "\<And>x. x \<in> set sh \<Longrightarrow> rsh ! x = rating ! (sh ! x)"
    using inr pr(1) by (simp_all add: ssh_def dsh_def rsh_def)
  have loop: "batch_loop B E sh ssh dsh rsh 0 =
      Some (map (\<lambda>c. (map (\<lambda>x. ssh ! x) c, map (\<lambda>x. dsh ! x) c, map (\<lambda>x. rsh ! x) c))
                (chunks B sh))"
    using batch_loop_chunks [of B sh E ssh dsh rsh 0] assms(1) pr(1) inr len by simp
  have cong: "map (\<lambda>c. (map (\<lambda>x. ssh ! x) c, map (\<lambda>x. dsh ! x) c, map (\<lambda>x. rsh ! x) c)) (chunks B sh)
      = map (\<lambda>c. (map (\<lambda>x. src ! (sh ! x)) c, map (\<lambda>x. dst ! (sh ! x)) c,
                   map (\<lambda>x. rating ! (sh ! x)) c)) (chunks B sh)"
  proof (rule map_cong [OF refl])
    fix c assume "c \<in> set (chunks B sh)"
    then have "set c \<subseteq> set sh" by (rule set_chunks)
    then show "(map (\<lambda>x. ssh ! x) c, map (\<lambda>x. dsh ! x) c, map (\<lambda>x. rsh ! x) c)
       = (map (\<lambda>x. src ! (sh ! x)) c, map (\<lambda>x. dst ! (sh ! x)) c, map (\<lambda>x. rating ! (sh ! x)) c)"
      using nths nthd nthr by (auto simp: subset_iff)
  qed
  have ne: "chunks B sh \<noteq> []"
    using assms(1,2) pr(1) by (auto simp: chunks_eq_Nil)
  have seeds: "concat (concat (map (\<lambda>(s, d, r). [s, d])
        (map (\<lambda>c. (map (\<lambda>x. src ! (sh ! x)) c, map (\<lambda>x. dst ! (sh ! x)) c,
                   map (\<lambda>x. rating ! (sh ! x)) c)) (chunks B sh))))
      = concat (map (\<lambda>c. map (\<lambda>x. src ! (sh ! x)) c @ map (\<lambda>x. dst ! (sh ! x)) c)
                           (chunks B sh))"
    by (simp add: comp_def concat_pairs)
  from loop cong have loop': "batch_loop B E sh ssh dsh rsh 0 =
      Some (map (\<lambda>c. (map (\<lambda>x. src ! (sh ! x)) c, map (\<lambda>x. dst ! (sh ! x)) c,
                   map (\<lambda>x. rating ! (sh ! x)) c)) (chunks B sh))"
    by simp
  show ?thesis
    using ne by (simp add: EdgeSampler_init_def g loop' comp_def concat_pairs)
qed

lemma perm_twice:
  assumes "mset sh = mset [0..<E]"
  shows "map (\<lambda>k. sh ! (sh ! k)) [0..<E] = map (\<lambda>x. sh ! x) sh"
    and "mset (map (\<lambda>k. sh ! (sh ! k)) [0..<E]) = mset [0..<E]"
proof -
  note pr = perm_range [OF assms]
  have sh: "map (\<lambda>k. sh ! k) [0..<E] = sh"
    using pr(1) map_nth [of sh] by simp
  have "map (\<lambda>k. sh ! (sh ! k)) [0..<E] = map (\<lambda>x. sh ! x) (map (\<lambda>k. sh ! k) [0..<E])"
    by (simp add: comp_def)
  with sh show eq: "map (\<lambda>k. sh ! (sh ! k)) [0..<E] = map (\<lambda>x. sh ! x) sh" by simp
  have "mset (map (\<lambda>x. sh ! x) sh) = image_mset (\<lambda>x. sh ! x) (mset sh)" by simp
  also have "\<dots> = image_mset (\<lambda>x. sh ! x) (mset [0..<E])" by (simp only: assms)
  also have "\<dots> = mset (map (\<lambda>k. sh ! k) [0..<E])" by simp
  also have "\<dots> = mset [0..<E]" by (simp only: sh assms)
  finally show "mset (map (\<lambda>k. sh ! (sh ! k)) [0..<E]) = mset [0..<E]"
    by (simp only: eq)
qed

lemma ceil_mult_ge: "0 < (B::nat) \<Longrightarrow> E \<le> ((E + B - 1) div B) * B"
proof -
  assume B: "0 < B"
  have "(E + B - 1) div B * B + (E + B - 1) mod B = E + B - 1" by simp
  moreover have "(E + B - 1) mod B < B" using B by simp
  ultimately show ?thesis by linarith
qed

lemma length_nth_chunks:
  assumes "0 < B" and "length xs = E" and "k < (E + B - 1) div B"
  shows "length (chunks B xs ! k) = (if k + 1 < (E + B - 1) div B then B else E - k * B)"
    and "0 < length (chunks B xs ! k)" and "length (chunks B xs ! k) \<le> B"
proof -
  have kb: "k * B < E" using assms(1,3) by (rule chunk_index)
  then have c: "chunks B xs ! k = take B (drop (k * B) xs)"
    using assms(1,2) by (simp add: nth_chunks)
  then have len: "length (chunks B xs ! k) = min B (E - k * B)"
    using assms(2) by simp
  with kb assms(1) show "0 < length (chunks B xs ! k)" by simp
  from len show "length (chunks B xs ! k) \<le> B" by simp
  show "length (chunks B xs ! k) = (if k + 1 < (E + B - 1) div B then B else E - k * B)"
  proof (cases "k + 1 < (E + B - 1) div B")
    case True
    with assms(1) have "(k + 1) * B < E" by (rule chunk_index)
    then have "B \<le> E - k * B" by simp
    with len True show ?thesis by simp
  next
    case False
    with assms(3) have "(E + B - 1) div B = k + 1" by simp
    with ceil_mult_ge [OF assms(1), of E] have "E \<le> (k + 1) * B" by simp
    then have "E - k * B \<le> B" by simp
    with len False show ?thesis by simp
  qed
qed

lemma nth_nth_chunks:
  assumes "0 < B" and "length xs = E" and "k < (E + B - 1) div B"
    and "t < length (chunks B xs ! k)"
  shows "chunks B xs ! k ! t = xs ! (k * B + t)" and "k * B + t < E"
proof -
  have kb: "k * B < E" using assms(1,3) by (rule chunk_index)
  then have c: "chunks B xs ! k = take B (drop (k * B) xs)"
    using assms(1,2) by (simp add: nth_chunks)
  with assms(4) have t: "t < B" "t < E - k * B" using assms(2) by simp_all
  from t(2) show "k * B + t < E" by simp
  with c t assms(2) show "chunks B xs ! k ! t = xs ! (k * B + t)" by simp
qed

lemma concat_zip_batches:
  "concat (map2 (\<lambda>s (d, r). zip s (zip d r))
             (map (map f) cs) (zip (map (map g) cs) (map (map h) cs)))
     = map (\<lambda>x. (f x, g x, h x)) (concat cs)"
proof (induction cs)
  case Nil
  show ?case by simp
next
  case (Cons c cs)
  have "zip (map f c) (zip (map g c) (map h c)) = map (\<lambda>x. (f x, g x, h x)) c"
    by (induction c) simp_all
  with Cons show ?case by simp
qed

lemma zip3_nth:
  assumes "length src = E" and "length dst = E" and "length rating = E"
  shows "map (\<lambda>e. (src ! e, dst ! e, rating ! e)) [0..<E] = zip src (zip dst rating)"
  using assms by (intro nth_equalityI) simp_all

text \<open>
  C7. Let \<open>E\<close> be the number of training edges, \<open>B > 0\<close> the batch size and
  \<open>shuffle_idx\<close> the permutation of \<open>0..<E\<close> drawn by the constructor. The constructor
  indexes with \<open>shuffle_idx\<close> twice (once for the shuffled arrays, once more for each
  batch), so the order it puts the edges in is \<open>q k = shuffle_idx[shuffle_idx[k]]\<close>,
  which is again one permutation of \<open>0..<E\<close>, the same for sources, destinations and
  ratings. The three batch lists are the contiguous chunks of size \<open>B\<close> of the
  arrays taken in the order \<open>q\<close>. Hence: the batches, read as triples, hold every
  edge triple exactly as often as the input does; there are \<open>\<lceil>E / B\<rceil>\<close> batches;
  every batch but the last has \<open>B\<close> entries and the last has the remaining
  \<open>E - k B\<close> (between \<open>1\<close> and \<open>B\<close>); and position \<open>t\<close> of batch \<open>k\<close> holds source,
  destination and rating of one and the same edge, number \<open>q (k B + t)\<close>.
\<close>

theorem EdgeSampler_batches:
  assumes "0 < B" and "0 < E" and "mset shuffle_idx = mset [0..<E]"
    and "length src = E" and "length dst = E" and "length rating = E"
  shows "\<exists>self q.
      EdgeSampler_init NS B E shuffle_idx src dst rating = Some self
    \<and> q = map (\<lambda>k. shuffle_idx ! (shuffle_idx ! k)) [0..<E]
    \<and> mset q = mset [0..<E]
    \<and> src_batches self = chunks B (map (\<lambda>e. src ! e) q)
    \<and> dst_batches self = chunks B (map (\<lambda>e. dst ! e) q)
    \<and> rating_batches self = chunks B (map (\<lambda>e. rating ! e) q)
    \<and> mset (concat (map2 (\<lambda>s (d, r). zip s (zip d r))
                (src_batches self) (zip (dst_batches self) (rating_batches self))))
        = mset (zip src (zip dst rating))
    \<and> length (src_batches self) = (E + B - 1) div B
    \<and> length (dst_batches self) = (E + B - 1) div B
    \<and> length (rating_batches self) = (E + B - 1) div B
    \<and> (\<forall>k < (E + B - 1) div B.
          length (src_batches self ! k) = (if k + 1 < (E + B - 1) div B then B else E - k * B)
        \<and> length (dst_batches self ! k) = length (src_batches self ! k)
        \<and> length (rating_batches self ! k) = length (src_batches self ! k)
        \<and> 0 < length (src_batches self ! k) \<and> length (src_batches self ! k) \<le> B
        \<and> (\<forall>t < length (src_batches self ! k).
              k * B + t < E
            \<and> src_batches self ! k ! t = src ! (q ! (k * B + t))
            \<and> dst_batches self ! k ! t = dst ! (q ! (k * B + t))
            \<and> rating_batches self ! k ! t = rating ! (q ! (k * B + t))))"
proof -
  let ?sh = shuffle_idx
  define q where "q = map (\<lambda>k. ?sh ! (?sh ! k)) [0..<E]"
  define self :: "'a EdgeSampler" where "self =
     \<lparr> src_batches = map (map (\<lambda>x. src ! (?sh ! x))) (chunks B ?sh),
       dst_batches = map (map (\<lambda>x. dst ! (?sh ! x))) (chunks B ?sh),
       rating_batches = map (map (\<lambda>x. rating ! (?sh ! x))) (chunks B ?sh),
       sampler = NS (B * 2)
         (concat (map (\<lambda>c. map (\<lambda>x. src ! (?sh ! x)) c @ map (\<lambda>x. dst ! (?sh ! x)) c)
                      (chunks B ?sh))),
       es_i = 0 \<rparr>"
  have init: "EdgeSampler_init NS B E ?sh src dst rating = Some self"
    unfolding self_def using assms by (rule EdgeSampler_init_eq)
  note pr = perm_range [OF assms(3)]
  have q_sh: "q = map (\<lambda>x. ?sh ! x) ?sh"
    unfolding q_def using assms(3) by (rule perm_twice(1))
  have q_perm: "mset q = mset [0..<E]"
    unfolding q_def using assms(3) by (rule perm_twice(2))
  have lq: "length q = E" by (simp add: q_def)
  have sb: "src_batches self = chunks B (map (\<lambda>e. src ! e) q)"
    by (simp add: self_def q_sh chunks_map comp_def)
  have db: "dst_batches self = chunks B (map (\<lambda>e. dst ! e) q)"
    by (simp add: self_def q_sh chunks_map comp_def)
  have rb: "rating_batches self = chunks B (map (\<lambda>e. rating ! e) q)"
    by (simp add: self_def q_sh chunks_map comp_def)
  have "concat (map2 (\<lambda>s (d, r). zip s (zip d r))
                (src_batches self) (zip (dst_batches self) (rating_batches self)))
        = map (\<lambda>x. (src ! (?sh ! x), dst ! (?sh ! x), rating ! (?sh ! x))) (concat (chunks B ?sh))"
    unfolding self_def by (simp add: concat_zip_batches)
  also have "\<dots> = map (\<lambda>e. (src ! e, dst ! e, rating ! e)) q"
    using assms(1) by (simp add: concat_chunks q_sh comp_def)
  finally have "mset (concat (map2 (\<lambda>s (d, r). zip s (zip d r))
                (src_batches self) (zip (dst_batches self) (rating_batches self))))
        = image_mset (\<lambda>e. (src ! e, dst ! e, rating ! e)) (mset q)"
    by simp
  also have "\<dots> = mset (map (\<lambda>e. (src ! e, dst ! e, rating ! e)) [0..<E])"
    by (simp only: q_perm mset_map)
  also have "\<dots> = mset (zip src (zip dst rating))"
    using assms(4-6) by (simp only: zip3_nth)
  finally have part: "mset (concat (map2 (\<lambda>s (d, r). zip s (zip d r))
                (src_batches self) (zip (dst_batches self) (rating_batches self))))
        = mset (zip src (zip dst rating))" .
  have n: "length (src_batches self) = (E + B - 1) div B"
      "length (dst_batches self) = (E + B - 1) div B"
      "length (rating_batches self) = (E + B - 1) div B"
    using assms(1) lq by (simp_all add: sb db rb length_chunks)
  have each: "length (src_batches self ! k) = (if k + 1 < (E + B - 1) div B then B else E - k * B)
        \<and> length (dst_batches self ! k) = length (src_batches self ! k)
        \<and> length (rating_batches self ! k) = length (src_batches self ! k)
        \<and> 0 < length (src_batches self ! k) \<and> length (src_batches self ! k) \<le> B
        \<and> (\<forall>t < length (src_batches self ! k).
              k * B + t < E
            \<and> src_batches self ! k ! t = src ! (q ! (k * B + t))
            \<and> dst_batches self ! k ! t = dst ! (q ! (k * B + t))
            \<and> rating_batches self ! k ! t = rating ! (q ! (k * B + t)))"
    if k: "k < (E + B - 1) div B" for k
  proof -
    have ls: "length (map (\<lambda>e. src ! e) q) = E" and ld: "length (map (\<lambda>e. dst ! e) q) = E"
      and lr: "length (map (\<lambda>e. rating ! e) q) = E" using lq by simp_all
    note S = length_nth_chunks [OF assms(1) ls k]
    note D = length_nth_chunks [OF assms(1) ld k]
    note R = length_nth_chunks [OF assms(1) lr k]
    have pos: "k * B + t < E
            \<and> src_batches self ! k ! t = src ! (q ! (k * B + t))
            \<and> dst_batches self ! k ! t = dst ! (q ! (k * B + t))
            \<and> rating_batches self ! k ! t = rating ! (q ! (k * B + t))"
      if t: "t < length (src_batches self ! k)" for t
    proof -
      from t have ts: "t < length (chunks B (map (\<lambda>e. src ! e) q) ! k)" by (simp add: sb)
      then have td: "t < length (chunks B (map (\<lambda>e. dst ! e) q) ! k)"
        and tr: "t < length (chunks B (map (\<lambda>e. rating ! e) q) ! k)"
        by (simp_all add: S(1) D(1) R(1))
      note s = nth_nth_chunks [OF assms(1) ls k ts]
      note d = nth_nth_chunks [OF assms(1) ld k td]
      note r = nth_nth_chunks [OF assms(1) lr k tr]
      from s(2) lq show ?thesis by (simp add: sb db rb s(1) d(1) r(1))
    qed
    from S D(1) R(1) pos show ?thesis by (simp add: sb db rb)
  qed
  from init q_def q_perm sb db rb part n each show ?thesis by blast
qed

lemma batch_size_pos: "0 < batch_size"
  by (simp add: batch_size_def)

lemma upt_3: "[0..<3] = [0, 1, 2]"
  by (simp add: upt_rec)

theorem EdgeSampler_batches_witness:
  "\<exists>self. EdgeSampler_init (\<lambda>n seeds. [seeds]) 2 3 [1, 2, 0] [10, 11, 12] [20, 21, 22] [5, 3, 4]
             = Some self
     \<and> src_batches self = [[12, 10], [11]]
     \<and> dst_batches self = [[22, 20], [21]]
     \<and> rating_batches self = [[4, 5], [3]]"
proof -
  have p: "mset [1, 2, 0 :: nat] = mset [0..<3]" by (simp add: upt_3)
  have c: "\<And>a b c :: 'b. chunks 2 [a, b, c] = [[a, b], [c]]"
    by (simp add: chunks.simps [of 2 "[a, b, c]" for a b c] chunks.simps [of 2 "[c]" for c])
  from EdgeSampler_batches [of 2 3 "[1, 2, 0]" "[10, 11, 12]" "[20, 21, 22]" "[5, 3, 4]"
      "\<lambda>n seeds. [seeds]", OF _ _ p]
  obtain self :: "nat list EdgeSampler" and q where
      "EdgeSampler_init (\<lambda>n seeds. [seeds]) 2 3 [1, 2, 0] [10, 11, 12] [20, 21, 22] [5, 3, 4]
         = Some self"
    and "q = map (\<lambda>k. [1, 2, 0] ! ([1, 2, 0 :: nat] ! k)) [0..<3]"
    and "src_batches self = chunks 2 (map (\<lambda>e. [10, 11, 12] ! e) q)"
    and "dst_batches self = chunks 2 (map (\<lambda>e. [20, 21, 22] ! e) q)"
    and "rating_batches self = chunks 2 (map (\<lambda>e. [5, 3, 4] ! e) q)"
    by auto
  then show ?thesis by (simp add: upt_3 c)
qed

subsection \<open>Iterating the edge sampler\<close>

lemma EdgeSampler_next_exhausted:
  "es_i self = length (src_batches self) \<Longrightarrow> EdgeSampler_next self = (Inl StopIteration, self)"
  by (simp add: EdgeSampler_next_def)

lemma EdgeSampler_next_batch:
  assumes "es_i self < length (src_batches self)"
    and "length (dst_batches self) = length (src_batches self)"
    and "length (rating_batches self) = length (src_batches self)"
    and "sampler self = nf # rest"
  shows "EdgeSampler_next self =
     (Inr (src_batches self ! es_i self, dst_batches self ! es_i self,
           rating_batches self ! es_i self, nf),
      self\<lparr>es_i := es_i self + 1, sampler := rest\<rparr>)"
  using assms by (simp add: EdgeSampler_next_def Let_def)

lemma for_batches_run:
  assumes "length (dst_batches self) = length (src_batches self)"
    and "length (rating_batches self) = length (src_batches self)"
    and "es_i self + d = length (src_batches self)"
    and "d \<le> length (sampler self)"
  shows "for_batches self =
     (map (\<lambda>k. (src_batches self ! (es_i self + k), dst_batches self ! (es_i self + k),
                 rating_batches self ! (es_i self + k), sampler self ! k)) [0..<d],
      StopIteration,
      self\<lparr>es_i := length (src_batches self), sampler := drop d (sampler self)\<rparr>)"
  using assms
proof (induction d arbitrary: self)
  case 0
  then have "EdgeSampler_next self = (Inl StopIteration, self)"
    by (simp add: EdgeSampler_next_exhausted)
  moreover from 0 have "self\<lparr>es_i := length (src_batches self), sampler := sampler self\<rparr> = self"
    by simp
  ultimately show ?case by (simp add: for_batches.simps [of self])
next
  case (Suc d)
  from Suc.prems(4) obtain nf rest where s: "sampler self = nf # rest"
    by (cases "sampler self") auto
  let ?self' = "self\<lparr>es_i := es_i self + 1, sampler := rest\<rparr>"
  have nx: "EdgeSampler_next self =
     (Inr (src_batches self ! es_i self, dst_batches self ! es_i self,
           rating_batches self ! es_i self, nf), ?self')"
    using Suc.prems s by (intro EdgeSampler_next_batch) simp_all
  have ih: "for_batches ?self' =
     (map (\<lambda>k. (src_batches ?self' ! (es_i ?self' + k), dst_batches ?self' ! (es_i ?self' + k),
                 rating_batches ?self' ! (es_i ?self' + k), sampler ?self' ! k)) [0..<d],
      StopIteration,
      ?self'\<lparr>es_i := length (src_batches ?self'), sampler := drop d (sampler ?self')\<rparr>)"
    using Suc.prems s by (intro Suc.IH) simp_all
  let ?b = "(src_batches self ! es_i self, dst_batches self ! es_i self,
           rating_batches self ! es_i self, nf)"
  have list: "map (\<lambda>k. (src_batches self ! (es_i self + k), dst_batches self ! (es_i self + k),
                 rating_batches self ! (es_i self + k), sampler self ! k)) [0..<Suc d]
     = ?b # map (\<lambda>k. (src_batches ?self' ! (es_i ?self' + k), dst_batches ?self' ! (es_i ?self' + k),
                 rating_batches ?self' ! (es_i ?self' + k), sampler ?self' ! k)) [0..<d]"
    by (simp add: upt_conv_Cons map_Suc_upt [symmetric] s del: upt_Suc)
  have fin: "?self'\<lparr>es_i := length (src_batches ?self'), sampler := drop d (sampler ?self')\<rparr>
     = self\<lparr>es_i := length (src_batches self), sampler := drop (Suc d) (sampler self)\<rparr>"
    by (simp add: s)
  have "for_batches self =
      (case for_batches ?self' of (bs, e, self'') \<Rightarrow> (?b # bs, e, self''))"
    by (subst for_batches.simps) (simp only: nx sum.case prod.case)
  also have "\<dots> = (?b # map (\<lambda>k. (src_batches ?self' ! (es_i ?self' + k), dst_batches ?self' ! (es_i ?self' + k),
                 rating_batches ?self' ! (es_i ?self' + k), sampler ?self' ! k)) [0..<d],
      StopIteration,
      ?self'\<lparr>es_i := length (src_batches ?self'), sampler := drop d (sampler ?self')\<rparr>)"
    by (simp only: ih prod.case)
  finally show ?case by (simp only: list fin)
qed

lemma length_seed_nodes:
  "length (concat (map (\<lambda>c. map f c @ map g c) cs)) = 2 * length (concat cs)"
  by (induction cs) simp_all

lemma ceil_double: "0 < (B::nat) \<Longrightarrow> (2 * E + B * 2 - 1) div (B * 2) = (E + B - 1) div B"
proof -
  assume B: "0 < B"
  have "(2 * E + B * 2 - 1) div (B * 2) = (2 * E + B * 2 - 1) div (2 * B)"
    by (simp only: mult.commute)
  also have "\<dots> = (2 * E + B * 2 - 1) div 2 div B"
    by (rule div_mult2_eq)
  also have "(2 * E + B * 2 - 1) div 2 = E + B - 1"
    using B by linarith
  finally show ?thesis .
qed

lemma train_loop_fold:
  "train_loop step bs (model, tot_loss, n) =
     (case foldl (\<lambda>(m, t) b. case step m b of (m', l) \<Rightarrow> (m', t + l)) (model, tot_loss) bs of
        (m', tot) \<Rightarrow> (m', tot, n + length bs))"
proof (induction bs arbitrary: model tot_loss n)
  case Nil
  show ?case by simp
next
  case (Cons b bs)
  obtain m l where st: "step model b = (m, l)" by (cases "step model b")
  from Cons [of m "tot_loss + l" "n + 1"] st show ?case by simp
qed

lemma map2_append_chunks:
  "map2 (@) (map (map f) cs) (map (map g) cs) = map (\<lambda>c. map f c @ map g c) cs"
  by (induction cs) simp_all

lemma EdgeSampler_pass:
  assumes "0 < B" and "0 < E" and "mset shuffle_idx = mset [0..<E]"
    and "length src = E" and "length dst = E" and "length rating = E"
    and "\<forall>n seeds. 0 < n \<longrightarrow> (length seeds + n - 1) div n \<le> length (NS n seeds)"
  shows "\<exists>self bs fin.
        EdgeSampler_init NS B E shuffle_idx src dst rating = Some self
      \<and> for_batches self = (bs, StopIteration, fin)
      \<and> length bs = (E + B - 1) div B
      \<and> (\<forall>k < length bs. bs ! k = (src_batches self ! k, dst_batches self ! k,
                                    rating_batches self ! k, sampler self ! k))
      \<and> bs = epoch_batches NS B E shuffle_idx src dst rating
      \<and> EdgeSampler_next fin = (Inl StopIteration, fin)
      \<and> for_batches fin = ([], StopIteration, fin)"
proof -
  let ?sh = shuffle_idx
  let ?n = "(E + B - 1) div B"
  let ?seeds = "concat (map (\<lambda>c. map (\<lambda>x. src ! (?sh ! x)) c @ map (\<lambda>x. dst ! (?sh ! x)) c)
                      (chunks B ?sh))"
  define self :: "'a EdgeSampler" where "self =
     \<lparr> src_batches = map (map (\<lambda>x. src ! (?sh ! x))) (chunks B ?sh),
       dst_batches = map (map (\<lambda>x. dst ! (?sh ! x))) (chunks B ?sh),
       rating_batches = map (map (\<lambda>x. rating ! (?sh ! x))) (chunks B ?sh),
       sampler = NS (B * 2) ?seeds,
       es_i = 0 \<rparr>"
  have init: "EdgeSampler_init NS B E ?sh src dst rating = Some self"
    unfolding self_def using assms(1-6) by (rule EdgeSampler_init_eq)
  note pr = perm_range [OF assms(3)]
  have n: "length (src_batches self) = ?n" "length (dst_batches self) = ?n"
      "length (rating_batches self) = ?n" "es_i self = 0"
    using assms(1) pr(1) by (simp_all add: self_def length_chunks)
  have "length ?seeds = 2 * E"
    using assms(1) pr(1) by (simp add: length_seed_nodes concat_chunks)
  moreover have "(length ?seeds + B * 2 - 1) div (B * 2) \<le> length (NS (B * 2) ?seeds)"
    using assms(1,7) by simp
  ultimately have flows: "?n \<le> length (sampler self)"
    using ceil_double [OF assms(1), of E] by (simp add: self_def)
  define bs where "bs = map (\<lambda>k. (src_batches self ! (es_i self + k),
      dst_batches self ! (es_i self + k), rating_batches self ! (es_i self + k),
      sampler self ! k)) [0..<?n]"
  define fin where "fin = self\<lparr>es_i := length (src_batches self),
      sampler := drop ?n (sampler self)\<rparr>"
  have run: "for_batches self = (bs, StopIteration, fin)"
    unfolding bs_def fin_def using n flows by (intro for_batches_run) simp_all
  have len: "length bs = ?n" by (simp add: bs_def)
  have nth: "\<forall>k < length bs. bs ! k = (src_batches self ! k, dst_batches self ! k,
                                    rating_batches self ! k, sampler self ! k)"
    by (simp add: bs_def n(4))
  let ?q = "map (\<lambda>k. ?sh ! (?sh ! k)) [0..<E]"
  have q_sh: "?q = map (\<lambda>x. ?sh ! x) ?sh"
    using assms(3) by (rule perm_twice(1))
  have sb: "src_batches self = chunks B (map (\<lambda>e. src ! e) ?q)"
    and db: "dst_batches self = chunks B (map (\<lambda>e. dst ! e) ?q)"
    and rb: "rating_batches self = chunks B (map (\<lambda>e. rating ! e) ?q)"
    unfolding q_sh by (simp_all add: self_def chunks_map comp_def)
  have "concat (map2 (@) (src_batches self) (dst_batches self)) = ?seeds"
    by (simp add: self_def map2_append_chunks)
  then have fl: "sampler self = NS (B * 2) (concat (map2 (@) (src_batches self) (dst_batches self)))"
    by (simp add: self_def)
  have "epoch_batches NS B E ?sh src dst rating
      = map (\<lambda>k. (src_batches self ! k, dst_batches self ! k, rating_batches self ! k,
                   sampler self ! k)) [0..<length (src_batches self)]"
    unfolding epoch_batches_def Let_def sb [symmetric] db [symmetric] rb [symmetric] fl [symmetric]
    by (rule refl)
  then have spec: "bs = epoch_batches NS B E ?sh src dst rating"
    by (simp add: bs_def n)
  have ex: "es_i fin = length (src_batches fin)" by (simp add: fin_def)
  then have stop: "EdgeSampler_next fin = (Inl StopIteration, fin)"
    by (rule EdgeSampler_next_exhausted)
  then have again: "for_batches fin = ([], StopIteration, fin)"
    by (simp add: for_batches.simps [of fin])
  from init run len nth spec stop again show ?thesis by blast
qed

lemma train_result:
  assumes "0 < B" and "0 < E" and "mset shuffle_idx = mset [0..<E]"
    and "length src = E" and "length dst = E" and "length rating = E"
    and "\<forall>n seeds. 0 < n \<longrightarrow> (length seeds + n - 1) div n \<le> length (NS n seeds)"
  shows "train NS step model B E shuffle_idx src dst rating
           = Some (epoch_result step model (epoch_batches NS B E shuffle_idx src dst rating))"
    and "length (epoch_batches NS B E shuffle_idx src dst rating) = (E + B - 1) div B"
proof -
  from EdgeSampler_pass [OF assms] obtain self bs fin where
      init: "EdgeSampler_init NS B E shuffle_idx src dst rating = Some self"
    and run: "for_batches self = (bs, StopIteration, fin)"
    and len: "length bs = (E + B - 1) div B"
    and spec: "bs = epoch_batches NS B E shuffle_idx src dst rating"
    by blast
  from len spec show "length (epoch_batches NS B E shuffle_idx src dst rating) = (E + B - 1) div B"
    by simp
  have pos: "0 < (E + B - 1) div B"
    using assms(1,2) by (simp add: div_greater_zero_iff)
  obtain m' tot where f:
    "foldl (\<lambda>(m, t) b. case step m b of (m', l) \<Rightarrow> (m', t + l)) (model, 0) bs = (m', tot)"
    by (cases "foldl (\<lambda>(m, t) b. case step m b of (m', l) \<Rightarrow> (m', t + l)) (model, 0) bs")
  then have tl: "train_loop step bs (model, 0, 0) = (m', tot, length bs)"
    by (simp add: train_loop_fold)
  from f have er: "epoch_result step model bs = (m', tot / real (length bs))"
    by (simp add: epoch_result_def)
  from init run tl pos len have "train NS step model B E shuffle_idx src dst rating
      = Some (m', tot / real (length bs))"
    by (simp add: train_def)
  with er spec show "train NS step model B E shuffle_idx src dst rating
           = Some (epoch_result step model (epoch_batches NS B E shuffle_idx src dst rating))"
    by simp
qed

lemma run_epochs_result:
  assumes "0 < B" and "0 < E"
    and "length src = E" and "length dst = E" and "length rating = E"
    and "\<forall>n seeds. 0 < n \<longrightarrow> (length seeds + n - 1) div n \<le> length (NS n seeds)"
    and "\<forall>p \<in> set perms. mset p = mset [0..<E]"
  shows "run_epochs NS step model B E perms src dst rating
           = Some (epoch_losses NS step model B E perms src dst rating)"
  using assms(7)
proof (induction perms arbitrary: model)
  case Nil
  show ?case by simp
next
  case (Cons p ps)
  then have p: "mset p = mset [0..<E]" by simp
  obtain m' l where er:
    "epoch_result step model (epoch_batches NS B E p src dst rating) = (m', l)"
    by (cases "epoch_result step model (epoch_batches NS B E p src dst rating)")
  with train_result(1) [OF assms(1,2) p assms(3-6), of step model]
  have t: "train NS step model B E p src dst rating = Some (m', l)" by simp
  from Cons have "run_epochs NS step m' B E ps src dst rating
      = Some (epoch_losses NS step m' B E ps src dst rating)"
    by simp
  with t er show ?case by simp
qed

lemma length_epoch_losses:
  "length (epoch_losses NS step model B E perms src dst rating) = length perms"
proof (induction perms arbitrary: model)
  case Nil
  show ?case by simp
next
  case (Cons p ps)
  obtain m' l where "epoch_result step model (epoch_batches NS B E p src dst rating) = (m', l)"
    by (cases "epoch_result step model (epoch_batches NS B E p src dst rating)")
  with Cons show ?case by simp
qed

text \<open>
  C8. Let the constructor's inputs be as in C7, and let DGL's sampler give at least one
  NodeFlow for every \<open>n\<close> seed nodes when asked for batches of \<open>n\<close>. A
  \<^verbatim>\<open>for\<close> loop over a new sampler runs on exactly \<open>\<lceil>E / B\<rceil>\<close> batches, batch \<open>k\<close>
  with NodeFlow \<open>k\<close>, and is ended by \<^verbatim>\<open>StopIteration\<close>; the batches are those of
  the epoch in the spec's words, in the order of the permutation given to the
  constructor. The object it leaves answers every further \<^verbatim>\<open>__next__\<close> with
  \<^verbatim>\<open>StopIteration\<close> and is unchanged by it, so a second loop over the same object
  runs on no batch. \<^verbatim>\<open>train\<close> constructs its own sampler from the permutation
  drawn in that call: what it returns is the result of the loop body over all
  \<open>\<lceil>E / B\<rceil>\<close> batches of that permutation and the mean of their losses. A run of
  epochs returns, epoch by epoch, the mean loss over all batches of that epoch's own
  permutation, computed on the parameters that the epoch before left.
\<close>

theorem EdgeSampler_one_pass:
  assumes "0 < B" and "0 < E" and "mset shuffle_idx = mset [0..<E]"
    and "length src = E" and "length dst = E" and "length rating = E"
    and "\<forall>n seeds. 0 < n \<longrightarrow> (length seeds + n - 1) div n \<le> length (NS n seeds)"
    and "\<forall>p \<in> set perms. mset p = mset [0..<E]"
  shows "(\<exists>self bs fin.
        EdgeSampler_init NS B E shuffle_idx src dst rating = Some self
      \<and> for_batches self = (bs, StopIteration, fin)
      \<and> length bs = (E + B - 1) div B
      \<and> (\<forall>k < length bs. bs ! k = (src_batches self ! k, dst_batches self ! k,
                                    rating_batches self ! k, sampler self ! k))
      \<and> bs = epoch_batches NS B E shuffle_idx src dst rating
      \<and> EdgeSampler_next fin = (Inl StopIteration, fin)
      \<and> for_batches fin = ([], StopIteration, fin))
    \<and> train NS step model B E shuffle_idx src dst rating
        = Some (epoch_result step model (epoch_batches NS B E shuffle_idx src dst rating))
    \<and> length (epoch_batches NS B E shuffle_idx src dst rating) = (E + B - 1) div B
    \<and> run_epochs NS step model B E perms src dst rating
        = Some (epoch_losses NS step model B E perms src dst rating)
    \<and> length (epoch_losses NS step model B E perms src dst rating) = length perms"
proof (intro conjI)
  show "\<exists>self bs fin.
        EdgeSampler_init NS B E shuffle_idx src dst rating = Some self
      \<and> for_batches self = (bs, StopIteration, fin)
      \<and> length bs = (E + B - 1) div B
      \<and> (\<forall>k < length bs. bs ! k = (src_batches self ! k, dst_batches self ! k,
                                    rating_batches self ! k, sampler self ! k))
      \<and> bs = epoch_batches NS B E shuffle_idx src dst rating
      \<and> EdgeSampler_next fin = (Inl StopIteration, fin)
      \<and> for_batches fin = ([], StopIteration, fin)"
    using assms(1-7) by (rule EdgeSampler_pass)
  show "train NS step model B E shuffle_idx src dst rating
        = Some (epoch_result step model (epoch_batches NS B E shuffle_idx src dst rating))"
    using assms(1-7) by (rule train_result(1))
  show "length (epoch_batches NS B E shuffle_idx src dst rating) = (E + B - 1) div B"
    using assms(1-7) by (rule train_result(2))
  show "run_epochs NS step model B E perms src dst rating
        = Some (epoch_losses NS step model B E perms src dst rating)"
    using assms(1,2,4-8) by (rule run_epochs_result)
  show "length (epoch_losses NS step model B E perms src dst rating) = length perms"
    by (rule length_epoch_losses)
qed

theorem EdgeSampler_one_pass_witness:
  "(\<exists>self bs fin.
        EdgeSampler_init chunks 2 3 [1, 2, 0] [10, 11, 12] [20, 21, 22] [5, 3, 4] = Some self
      \<and> for_batches self = (bs, StopIteration, fin)
      \<and> length bs = 2
      \<and> EdgeSampler_next fin = (Inl StopIteration, fin)
      \<and> for_batches fin = ([], StopIteration, fin))
    \<and> (\<exists>losses. run_epochs chunks (\<lambda>m b. (m, 1)) () 2 3 [[1, 2, 0], [0, 1, 2]]
                    [10, 11, 12] [20, 21, 22] [5, 3, 4] = Some losses
           \<and> length losses = 2)"
proof -
  have p: "mset [1, 2, 0 :: nat] = mset [0..<3]" by (simp add: upt_3)
  have ps: "\<forall>p \<in> set [[1, 2, 0], [0, 1, 2 :: nat]]. mset p = mset [0..<3]"
    by (simp add: upt_3)
  have ns: "\<forall>n (seeds :: nat list). 0 < n \<longrightarrow> (length seeds + n - 1) div n \<le> length (chunks n seeds)"
    by (simp add: length_chunks)
  have two: "(3 + 2 - 1) div 2 = (2 :: nat)" by simp
  have l2: "length [[1, 2, 0], [0, 1, 2 :: nat]] = 2" by simp
  have "0 < (2 :: nat)" and "0 < (3 :: nat)" and "length [10, 11, 12 :: nat] = 3"
    and "length [20, 21, 22 :: nat] = 3" and "length [5, 3, 4 :: real] = 3"
    by simp_all
  from EdgeSampler_one_pass [of 2 3 "[1, 2, 0]" "[10, 11, 12]" "[20, 21, 22]" "[5, 3, 4]"
      chunks "[[1, 2, 0], [0, 1, 2]]" "\<lambda>m b. (m, 1)" "()", OF this(1,2) p this(3-5) ns ps,
      unfolded two l2]
  show ?thesis by blast
qed

subsection \<open>The loops of the encoder\<close>

lemma nd_divide_floor:
  "nd_divide v (nd_maximum x (1 / 1000000)) = Some (nd_scale_div v (nd_maximum x (1 / 1000000)))"
proof -
  have "0 < nd_maximum x (1 / 1000000)" by (simp add: nd_maximum_def max_def)
  then show ?thesis by (simp add: nd_divide_def nd_scale_div_def)
qed

lemma forward_checked_value:
  "GraphSageNodeUpdate_forward_checked self h h_agg deg
     = Some (GraphSageNodeUpdate_forward self h h_agg deg)"
  by (simp add: GraphSageNodeUpdate_forward_checked_def nd_divide_floor Let_def
      GraphSageNodeUpdate_forward_def h_new_def h_concat_def)

lemma nid_in_typed:
  assumes "distinct (map nid l)" and "n \<in> set l"
  shows "nid n \<in> set (map nid (filter P l)) \<longleftrightarrow> P n"
proof
  assume "nid n \<in> set (map nid (filter P l))"
  then obtain m where m: "m \<in> set l" "P m" "nid m = nid n" by auto
  with assms have "m = n" by (meson distinct_map inj_onD)
  with m show "P n" by simp
next
  assume "P n"
  with assms(2) show "nid n \<in> set (map nid (filter P l))" by auto
qed

lemma typed_ids_map:
  assumes "\<And>n. nid (f n) = nid n \<and> feat (f n) = feat n"
  shows "map nid (filter (\<lambda>n. ntype (feat n) = t) (map f l))
       = map nid (filter (\<lambda>n. ntype (feat n) = t) l)"
  by (induction l) (simp_all add: assms)

lemma apply_layer_typed:
  assumes "i < length (layers nf)" and "distinct (map nid (layers nf ! i))"
    and "map nid (filter (\<lambda>n. ntype (feat n) = t) (layers nf ! i)) = v"
  shows "(if 0 < length v then apply_layer nf i func v else nf)
     = nf\<lparr>layers := (layers nf)[i := map (\<lambda>n. if ntype (feat n) = t then func n else n) (layers nf ! i)]\<rparr>"
proof -
  have sel: "map (\<lambda>n. if nid n \<in> set v then func n else n) (layers nf ! i)
      = map (\<lambda>n. if ntype (feat n) = t then func n else n) (layers nf ! i)"
  proof (rule map_cong [OF refl])
    fix n assume "n \<in> set (layers nf ! i)"
    with assms(2) have "nid n \<in> set (map nid (filter (\<lambda>n. ntype (feat n) = t) (layers nf ! i)))
        \<longleftrightarrow> ntype (feat n) = t"
      by (rule nid_in_typed)
    then show "(if nid n \<in> set v then func n else n) = (if ntype (feat n) = t then func n else n)"
      by (simp add: assms(3))
  qed
  show ?thesis
  proof (cases "0 < length v")
    case True
    then show ?thesis by (simp add: apply_layer_def sel)
  next
    case False
    then have "v = []" by simp
    with sel have "map (\<lambda>n. if ntype (feat n) = t then func n else n) (layers nf ! i) = layers nf ! i"
      by simp
    with False show ?thesis by simp
  qed
qed

lemma embed_layer_layers:
  assumes "i < length (layers nf)" and "layer_ok (layers nf ! i)"
  shows "embed_layer self nf i =
     nf\<lparr>layers := (layers nf)[i := map (\<lambda>n. n\<lparr>data_h := Some (initial_embedding self n)\<rparr>) (layers nf ! i)]\<rparr>"
proof -
  let ?fu = "\<lambda>n. n\<lparr>data_h := Some (UserEmbedding_forward (user_emb self) (feat n) (nid n))\<rparr>"
  let ?fm = "\<lambda>n. n\<lparr>data_h := Some (MovieEmbedding_forward (movie_emb self) (feat n) (nid n))\<rparr>"
  let ?l = "layers nf ! i"
  from assms(2) have d: "distinct (map nid ?l)"
    and ty: "\<And>n. n \<in> set ?l \<Longrightarrow> ntype (feat n) = 1 \<or> ntype (feat n) = 0"
    by (auto simp: layer_ok_def)
  define nf1 where "nf1 = (if 0 < length (nodes_of_type nf i 1)
      then apply_layer nf i ?fu (nodes_of_type nf i 1) else nf)"
  have nf1: "nf1 = nf\<lparr>layers := (layers nf)[i := map (\<lambda>n. if ntype (feat n) = 1 then ?fu n else n) ?l]\<rparr>"
    unfolding nf1_def using assms(1) d by (rule apply_layer_typed) (simp add: nodes_of_type_def)
  let ?l1 = "map (\<lambda>n. if ntype (feat n) = 1 then ?fu n else n) ?l"
  have l1: "layers nf1 ! i = ?l1" and len1: "i < length (layers nf1)"
    using assms(1) by (simp_all add: nf1)
  have d1: "distinct (map nid (layers nf1 ! i))"
    using d by (simp add: l1 comp_def if_distrib cong: if_cong)
  have mv: "map nid (filter (\<lambda>n. ntype (feat n) = 0) (layers nf1 ! i)) = nodes_of_type nf i 0"
    unfolding l1 nodes_of_type_def by (rule typed_ids_map) simp
  have "embed_layer self nf i = (if 0 < length (nodes_of_type nf i 0)
      then apply_layer nf1 i ?fm (nodes_of_type nf i 0) else nf1)"
    by (simp add: embed_layer_def nf1_def Let_def)
  also have "\<dots> = nf1\<lparr>layers := (layers nf1)[i := map (\<lambda>n. if ntype (feat n) = 0 then ?fm n else n) (layers nf1 ! i)]\<rparr>"
    using len1 d1 mv by (rule apply_layer_typed)
  also have "\<dots> = nf\<lparr>layers := (layers nf)[i := map (\<lambda>n. n\<lparr>data_h := Some (initial_embedding self n)\<rparr>) ?l]\<rparr>"
  proof -
    have eq: "map (\<lambda>n. if ntype (feat n) = 0 then ?fm n else n) ?l1
        = map (\<lambda>n. n\<lparr>data_h := Some (initial_embedding self n)\<rparr>) ?l"
      using ty by (auto simp: initial_embedding_def)
    show ?thesis unfolding l1 eq by (simp add: nf1)
  qed
  finally show ?thesis .
qed

lemma update_prefix:
  assumes "m < length L"
  shows "(map G (take m L) @ drop m L)[m := G (L ! m)] = map G (take (Suc m) L) @ drop (Suc m) L"
    and "(map G (take m L) @ drop m L) ! m = L ! m"
proof -
  from assms have len: "length (map G (take m L)) = m" by simp
  from assms have dr: "drop m L = L ! m # drop (Suc m) L" by (simp add: Cons_nth_drop_Suc)
  show "(map G (take m L) @ drop m L) ! m = L ! m"
    using len by (simp add: nth_append dr)
  have "(map G (take m L) @ drop m L)[m := G (L ! m)]
      = map G (take m L) @ (drop m L)[0 := G (L ! m)]"
    using len by (simp add: list_update_append)
  also have "\<dots> = map G (take m L) @ G (L ! m) # drop (Suc m) L"
    by (simp add: dr)
  also have "\<dots> = map G (take (Suc m) L) @ drop (Suc m) L"
    using assms by (simp add: take_Suc_conv_app_nth)
  finally show "(map G (take m L) @ drop m L)[m := G (L ! m)]
      = map G (take (Suc m) L) @ drop (Suc m) L" .
qed

lemma embed_prefix:
  assumes "\<forall>l \<in> set (layers nf). layer_ok l" and "m \<le> length (layers nf)"
  shows "foldl (embed_layer self) nf [0..<m] =
     nf\<lparr>layers := map (map (\<lambda>n. n\<lparr>data_h := Some (initial_embedding self n)\<rparr>)) (take m (layers nf))
                    @ drop m (layers nf)\<rparr>"
  using assms(2)
proof (induction m)
  case 0
  show ?case by simp
next
  case (Suc m)
  let ?G = "map (\<lambda>n. n\<lparr>data_h := Some (initial_embedding self n)\<rparr>)"
  let ?L = "layers nf"
  let ?A = "map ?G (take m ?L) @ drop m ?L"
  from Suc.prems have m: "m < length ?L" by simp
  with Suc.IH have ih: "foldl (embed_layer self) nf [0..<m] = nf\<lparr>layers := ?A\<rparr>" by simp
  note up = update_prefix [OF m, of ?G]
  from m assms(1) have ok: "layer_ok (?L ! m)" by simp
  have "foldl (embed_layer self) nf [0..<Suc m] = embed_layer self (nf\<lparr>layers := ?A\<rparr>) m"
    by (simp add: ih)
  also have "\<dots> = nf\<lparr>layers := ?A[m := ?G (?A ! m)]\<rparr>"
    using m ok by (subst embed_layer_layers) (simp_all add: up(2))
  also have "?A[m := ?G (?A ! m)] = map ?G (take (Suc m) ?L) @ drop (Suc m) ?L"
    by (simp only: up)
  finally show ?case .
qed

lemma embed_all_layers:
  assumes "\<forall>l \<in> set (layers nf). layer_ok l"
  shows "embed_all self nf =
     nf\<lparr>layers := map (map (\<lambda>n. n\<lparr>data_h := Some (initial_embedding self n)\<rparr>)) (layers nf)\<rparr>"
  using embed_prefix [OF assms, of "length (layers nf)" self]
  by (simp add: embed_all_def num_layers_def)

lemma typed_ids_same:
  assumes "length l' = length l"
    and "\<And>k. k < length l \<Longrightarrow> nid (l' ! k) = nid (l ! k) \<and> feat (l' ! k) = feat (l ! k)"
  shows "map nid (filter (\<lambda>n. ntype (feat n) = t) l') = map nid (filter (\<lambda>n. ntype (feat n) = t) l)"
    and "map nid l' = map nid l"
proof -
  have st: "map (\<lambda>n. (nid n, feat n)) l' = map (\<lambda>n. (nid n, feat n)) l"
    using assms by (intro nth_equalityI) simp_all
  have fl: "\<And>xs. map nid (filter (\<lambda>n. ntype (feat n) = t) xs)
      = map fst (filter (\<lambda>p. ntype (snd p) = t) (map (\<lambda>n. (nid n, feat n)) xs))"
    by (induct_tac xs) simp_all
  show "map nid (filter (\<lambda>n. ntype (feat n) = t) l') = map nid (filter (\<lambda>n. ntype (feat n) = t) l)"
    by (simp only: fl st)
  have "map nid l' = map fst (map (\<lambda>n. (nid n, feat n)) l')" by simp
  also have "\<dots> = map fst (map (\<lambda>n. (nid n, feat n)) l)" by (simp only: st)
  also have "\<dots> = map nid l" by simp
  finally show "map nid l' = map nid l" .
qed

lemma block_step_layers:
  assumes "i + 1 < length (layers nf)" and "distinct (map nid (layers nf ! (i + 1)))"
  shows "block_step self nf i =
     nf\<lparr>layers := (layers nf)[i + 1 := map (step_node self nf i) [0..<length (layers nf ! (i + 1))]]\<rparr>"
proof -
  let ?L = "layers nf"
  let ?l = "?L ! (i + 1)"
  let ?n = "length ?l"
  let ?agg = "\<lambda>k. map_option (nd_sum (embedding_size self)) (those (map (src_h nf i) (block_in nf i k)))"
  let ?deg = "\<lambda>k. Some (real (length (block_in nf i k)))"
  define nf1 where "nf1 = set_deg nf (i + 1) (layer_in_degree nf (i + 1))"
  define l1 where "l1 = map (\<lambda>k. (?l ! k)\<lparr>data_deg := ?deg k\<rparr>) [0..<?n]"
  have "map (\<lambda>k. (?l ! k)\<lparr>data_deg := Some (layer_in_degree nf (i + 1) ! k)\<rparr>) [0..<?n] = l1"
    unfolding l1_def by (rule nth_equalityI) (simp_all add: layer_in_degree_def)
  then have nf1: "nf1 = nf\<lparr>layers := ?L[i + 1 := l1]\<rparr>"
    by (simp add: nf1_def set_deg_def)
  have L1: "layers nf1 ! (i + 1) = l1" "layers nf1 ! i = ?L ! i" "length (layers nf1) = length ?L"
      "block_in nf1 = block_in nf"
    using assms(1) by (simp_all add: nf1)
  have len1: "length l1 = ?n" by (simp add: l1_def)
  have same1: "\<And>k. k < ?n \<Longrightarrow> nid (l1 ! k) = nid (?l ! k) \<and> feat (l1 ! k) = feat (?l ! k)"
    by (simp add: l1_def)
  have un: "nodes_of_type nf1 (i + 1) 1 = map nid (filter (\<lambda>n. ntype (feat n) = 1) ?l)"
    unfolding nodes_of_type_def L1 using len1 same1 by (rule typed_ids_same(1))
  have mn: "nodes_of_type nf1 (i + 1) 0 = map nid (filter (\<lambda>n. ntype (feat n) = 0) ?l)"
    unfolding nodes_of_type_def L1 using len1 same1 by (rule typed_ids_same(1))
  define nf2 where "nf2 = block_compute (embedding_size self) nf1 i"
  define l2 where "l2 = map (\<lambda>k. (?l ! k)\<lparr>data_h_agg := ?agg k, data_deg := ?deg k\<rparr>) [0..<?n]"
  have sh: "src_h nf1 i = src_h nf i" by (simp add: src_h_def fun_eq_iff L1)
  have "map (\<lambda>k. (l1 ! k)\<lparr>data_h_agg := ?agg k\<rparr>) [0..<?n] = l2"
    by (simp add: l1_def l2_def)
  then have nf2: "nf2 = nf\<lparr>layers := ?L[i + 1 := l2]\<rparr>"
    using assms(1) by (simp add: nf2_def block_compute_def L1 sh len1) (simp add: nf1 len1)
  have L2: "layers nf2 ! (i + 1) = l2" "length (layers nf2) = length ?L"
    using assms(1) by (simp_all add: nf2)
  have len2: "length l2 = ?n" by (simp add: l2_def)
  have same2: "\<And>k. k < ?n \<Longrightarrow> nid (l2 ! k) = nid (?l ! k) \<and> feat (l2 ! k) = feat (?l ! k)"
    by (simp add: l2_def)
  note ids2 = typed_ids_same [OF len2 same2]
  define nf3 where "nf3 = (if 0 < length (nodes_of_type nf1 (i + 1) 1)
      then apply_layer nf2 (i + 1) (run_update (user_layers self) i) (nodes_of_type nf1 (i + 1) 1)
      else nf2)"
  define l3 where "l3 = map (\<lambda>n. if ntype (feat n) = 1 then run_update (user_layers self) i n else n) l2"
  have "nf3 = nf2\<lparr>layers := (layers nf2)[i + 1 :=
       map (\<lambda>n. if ntype (feat n) = 1 then run_update (user_layers self) i n else n)
           (layers nf2 ! (i + 1))]\<rparr>"
    unfolding nf3_def
  proof (rule apply_layer_typed)
    show "i + 1 < length (layers nf2)" using assms(1) by (simp add: L2)
    show "distinct (map nid (layers nf2 ! (i + 1)))" using assms(2) by (simp only: L2 ids2(2))
    show "map nid (filter (\<lambda>n. ntype (feat n) = 1) (layers nf2 ! (i + 1))) = nodes_of_type nf1 (i + 1) 1"
      by (simp only: L2 ids2(1) un)
  qed
  then have nf3: "nf3 = nf\<lparr>layers := ?L[i + 1 := l3]\<rparr>"
    using assms(1) by (simp add: L2 l3_def) (simp add: nf2)
  have L3: "layers nf3 ! (i + 1) = l3" "length (layers nf3) = length ?L"
    using assms(1) by (simp_all add: nf3)
  have len3: "length l3 = ?n" by (simp add: l3_def len2)
  have same3: "\<And>k. k < ?n \<Longrightarrow> nid (l3 ! k) = nid (?l ! k) \<and> feat (l3 ! k) = feat (?l ! k)"
    using same2 len2 by (simp add: l3_def run_update_def)
  note ids3 = typed_ids_same [OF len3 same3]
  have "block_step self nf i = (if 0 < length (nodes_of_type nf1 (i + 1) 0)
      then apply_layer nf3 (i + 1) (run_update (movie_layers self) i) (nodes_of_type nf1 (i + 1) 0)
      else nf3)"
    by (simp add: block_step_def Let_def nf1_def nf2_def nf3_def)
  also have "\<dots> = nf3\<lparr>layers := (layers nf3)[i + 1 :=
       map (\<lambda>n. if ntype (feat n) = 0 then run_update (movie_layers self) i n else n)
           (layers nf3 ! (i + 1))]\<rparr>"
  proof (rule apply_layer_typed)
    show "i + 1 < length (layers nf3)" using assms(1) by (simp add: L3)
    show "distinct (map nid (layers nf3 ! (i + 1)))" using assms(2) by (simp only: L3 ids3(2))
    show "map nid (filter (\<lambda>n. ntype (feat n) = 0) (layers nf3 ! (i + 1))) = nodes_of_type nf1 (i + 1) 0"
      by (simp only: L3 ids3(1) mn)
  qed
  also have "\<dots> = nf\<lparr>layers := ?L[i + 1 :=
       map (\<lambda>n. if ntype (feat n) = 0 then run_update (movie_layers self) i n else n) l3]\<rparr>"
    using assms(1) by (simp add: L3) (simp add: nf3)
  also have "map (\<lambda>n. if ntype (feat n) = 0 then run_update (movie_layers self) i n else n) l3
      = map (step_node self nf i) [0..<?n]"
    by (simp add: l3_def l2_def step_node_def run_update_def Let_def)
  finally show ?thesis .
qed

lemma those_map_Some:
  "(\<And>p. p \<in> set ins \<Longrightarrow> g p = Some (f p)) \<Longrightarrow> those (map g ins) = Some (map f ins)"
  by (induction ins) simp_all

lemma node_after_static [simp]:
  "nid (node_after self nf j i k) = nid (layers nf ! i ! k)"
  "feat (node_after self nf j i k) = feat (layers nf ! i ! k)"
  by (simp_all add: node_after_def Let_def)

lemma node_after_h:
  "data_h (node_after self nf j i k) =
     Some (if j < i then initial_embedding self (layers nf ! i ! k) else layer_embedding self nf i k)"
  by (cases i) (simp_all add: node_after_def Let_def)

lemma encoder_prefix:
  assumes "flow_ok nf" and "j \<le> num_blocks nf"
    and "num_blocks nf \<le> length (user_layers self)"
    and "num_blocks nf \<le> length (movie_layers self)"
  shows "foldl (block_step self) (embed_all self nf) [0..<j] =
     nf\<lparr>layers := map (\<lambda>i. map (node_after self nf j i) [0..<length (layers nf ! i)])
                        [0..<length (layers nf)]\<rparr>"
  using assms(2)
proof (induction j)
  case 0
  from assms(1) have ok: "\<forall>l \<in> set (layers nf). layer_ok l" by (simp add: flow_ok_def)
  have "map (map (\<lambda>n. n\<lparr>data_h := Some (initial_embedding self n)\<rparr>)) (layers nf)
      = map (\<lambda>i. map (node_after self nf 0 i) [0..<length (layers nf ! i)]) [0..<length (layers nf)]"
    by (intro nth_equalityI) (auto simp: node_after_def Let_def)
  then show ?case by (simp add: embed_all_layers [OF ok])
next
  case (Suc j)
  let ?L = "layers nf"
  let ?A = "\<lambda>j. map (\<lambda>i. map (node_after self nf j i) [0..<length (?L ! i)]) [0..<length ?L]"
  let ?S = "nf\<lparr>layers := ?A j\<rparr>"
  let ?n = "length (?L ! (j + 1))"
  from Suc.prems have j: "j + 1 < length ?L" by (simp add: num_blocks_def)
  from Suc have ih: "foldl (block_step self) (embed_all self nf) [0..<j] = ?S" by simp
  from assms(1) j have ok: "layer_ok (?L ! (j + 1))" by (simp add: flow_ok_def)
  from assms(1) j have inr: "\<And>k p. k < ?n \<Longrightarrow> p \<in> set (block_in nf j k) \<Longrightarrow> p < length (?L ! j)"
    by (simp add: flow_ok_def)
  from Suc.prems assms(3,4) have lay: "j < length (user_layers self)" "j < length (movie_layers self)"
    by (simp_all add: num_blocks_def)
  have Sj: "layers ?S ! (j + 1) = map (node_after self nf j (j + 1)) [0..<?n]"
    "length (layers ?S) = length ?L" "block_in ?S = block_in nf"
    using j by simp_all
  have "map nid (layers ?S ! (j + 1)) = map nid (?L ! (j + 1))"
    unfolding Sj by (intro nth_equalityI) simp_all
  with ok have dist: "distinct (map nid (layers ?S ! (j + 1)))" by (simp add: layer_ok_def)
  have step: "step_node self ?S j k = node_after self nf (j + 1) (j + 1) k" if k: "k < ?n" for k
  proof -
    define S where "S = ?S"
    let ?n0 = "?L ! Suc j ! k"
    have cur: "layers S ! Suc j ! k = ?n0\<lparr>data_h := Some (initial_embedding self ?n0)\<rparr>"
      using j k by (simp add: S_def node_after_def Let_def)
    have bl: "block_in S = block_in nf" by (simp add: S_def)
    have "src_h S j p = Some (layer_embedding self nf j p)" if "p \<in> set (block_in nf j k)" for p
    proof -
      from inr [OF k that] have p: "p < length (?L ! j)" .
      with j show ?thesis by (simp add: S_def src_h_def node_after_h)
    qed
    then have agg: "those (map (src_h S j) (block_in nf j k))
        = Some (map (layer_embedding self nf j) (block_in nf j k))"
      by (rule those_map_Some)
    from ok j k have ty: "ntype (feat ?n0) = 1 \<or> ntype (feat ?n0) = 0"
      by (simp add: layer_ok_def)
    then have "step_node self S j k = node_after self nf (j + 1) (j + 1) k"
      using lay
      by (auto simp: step_node_def Let_def cur bl agg run_update_def node_after_def update_block_def
          forward_checked_value)
    then show ?thesis by (simp only: S_def)
  qed
  have "foldl (block_step self) (embed_all self nf) [0..<Suc j] = block_step self ?S j"
    by (simp add: ih)
  also have "\<dots> = ?S\<lparr>layers := (layers ?S)[j + 1 := map (step_node self ?S j)
                                           [0..<length (layers ?S ! (j + 1))]]\<rparr>"
    using j dist by (intro block_step_layers) simp_all
  also have "(layers ?S)[j + 1 := map (step_node self ?S j) [0..<length (layers ?S ! (j + 1))]]
      = ?A (Suc j)"
  proof (rule nth_equalityI)
    show "length ((layers ?S)[j + 1 := map (step_node self ?S j) [0..<length (layers ?S ! (j + 1))]])
        = length (?A (Suc j))" by simp
  next
    fix i
    assume "i < length ((layers ?S)[j + 1 := map (step_node self ?S j)
                         [0..<length (layers ?S ! (j + 1))]])"
    then have i: "i < length ?L" by simp
    show "(layers ?S)[j + 1 := map (step_node self ?S j) [0..<length (layers ?S ! (j + 1))]] ! i
        = ?A (Suc j) ! i"
    proof (cases "i = j + 1")
      case True
      have "map (step_node self ?S j) [0..<?n] = map (node_after self nf (j + 1) (j + 1)) [0..<?n]"
        using step by simp
      with True j show ?thesis by simp
    next
      case False
      then have "\<And>k. node_after self nf j i k = node_after self nf (Suc j) i k"
        by (auto simp: node_after_def Let_def)
      with False i show ?thesis by simp
    qed
  qed
  finally show ?case by simp
qed

lemma encoder_run_layers:
  assumes "flow_ok nf"
    and "num_blocks nf \<le> length (user_layers self)"
    and "num_blocks nf \<le> length (movie_layers self)"
  shows "encoder_run self nf =
     nf\<lparr>layers := map (\<lambda>i. map (node_after self nf (num_blocks nf) i) [0..<length (layers nf ! i)])
                        [0..<length (layers nf)]\<rparr>"
  unfolding encoder_run_def using assms(1) _ assms(2,3) by (rule encoder_prefix) simp

lemma encoder_run_node:
  assumes "flow_ok nf"
    and "num_blocks nf \<le> length (user_layers self)"
    and "num_blocks nf \<le> length (movie_layers self)"
    and "i < length (layers nf)" and "k < length (layers nf ! i)"
  shows "layers (encoder_run self nf) ! i ! k = node_after self nf (num_blocks nf) i k"
    and "length (layers (encoder_run self nf)) = length (layers nf)"
    and "length (layers (encoder_run self nf) ! i) = length (layers nf ! i)"
  using assms(4,5) by (simp_all add: encoder_run_layers [OF assms(1-3)])

lemma GraphSageEncoder_forward_eq:
  assumes "flow_ok nf"
    and "num_blocks nf \<le> length (user_layers self)"
    and "num_blocks nf \<le> length (movie_layers self)"
  shows "GraphSageEncoder_forward self nf =
     map (\<lambda>k. Some (layer_embedding self nf (num_blocks nf) k)) [0..<length (last (layers nf))]"
proof -
  let ?L = "layers nf"
  let ?B = "num_blocks nf"
  from assms(1) have ne: "?L \<noteq> []" by (simp add: flow_ok_def)
  then have B: "?B < length ?L" "last ?L = ?L ! ?B"
    by (simp_all add: num_blocks_def last_conv_nth)
  have "last (layers (encoder_run self nf)) = layers (encoder_run self nf) ! ?B"
    using ne by (simp add: encoder_run_layers [OF assms] last_conv_nth num_blocks_def)
  also have "\<dots> = map (node_after self nf ?B ?B) [0..<length (?L ! ?B)]"
    using B(1) by (simp add: encoder_run_layers [OF assms])
  finally show ?thesis
    by (simp add: GraphSageEncoder_forward_def B(2) node_after_h)
qed

lemma nd_sum_foldl:
  assumes "length a = d" and "\<forall>h \<in> set hs. length h = d"
  shows "length (foldl nd_add a hs) = d
       \<and> (\<forall>c < d. foldl nd_add a hs ! c = a ! c + sum_list (map (\<lambda>h. h ! c) hs))"
  using assms
proof (induction hs arbitrary: a)
  case Nil
  then show ?case by simp
next
  case (Cons h hs)
  from Cons.prems have "length (nd_add a h) = d" "\<forall>c < d. nd_add a h ! c = a ! c + h ! c"
    by (simp_all add: nd_add_def)
  with Cons.IH [of "nd_add a h"] Cons.prems show ?case by (simp add: add.assoc)
qed

lemma nd_sum_elementwise:
  assumes "\<forall>h \<in> set hs. length h = d"
  shows "length (nd_sum d hs) = d" and "\<forall>c < d. nd_sum d hs ! c = sum_list (map (\<lambda>h. h ! c) hs)"
  using nd_sum_foldl [of "replicate d 0" d hs] assms by (simp_all add: nd_sum_def)

lemma nd_sum_Nil: "nd_sum d [] = replicate d 0"
  by (simp add: nd_sum_def)

lemma sum_sq_scale:
  "sum_list (map (\<lambda>x. x * x) (nd_scale_div v c)) = sum_list (map (\<lambda>x. x * x) v) / (c * c)"
  by (induction v) (simp_all add: nd_scale_div_def add_divide_distrib)

lemma nd_norm_scale: "nd_norm (nd_scale_div v c) = nd_norm v / \<bar>c\<bar>"
  by (simp add: nd_norm_def sum_sq_scale real_sqrt_divide)

lemma nd_norm_normalize:
  assumes "1 / 1000000 < nd_norm v"
  shows "nd_norm (nd_scale_div v (nd_maximum (nd_norm v) (1 / 1000000))) = 1"
proof -
  from assms have "nd_maximum (nd_norm v) (1 / 1000000) = nd_norm v" by (simp add: nd_maximum_def)
  moreover from assms have "0 < nd_norm v" by simp
  ultimately show ?thesis by (simp add: nd_norm_scale)
qed

lemma nd_maximum_floor: "1 / 1000000 \<le> nd_maximum x (1 / 1000000)" "0 < nd_maximum x (1 / 1000000)"
  by (simp_all add: nd_maximum_def max_def)

subsection \<open>The small flow\<close>

lemma ex_flow_ok: "flow_ok ex_nf"
  by (auto simp: flow_ok_def layer_ok_def ex_nf_def ex_node_def less_Suc_eq)

lemma ex_blocks: "num_blocks ex_nf = 1" "length (user_layers ex_enc) = 1" "length (movie_layers ex_enc) = 1"
  by (simp_all add: num_blocks_def ex_nf_def ex_enc_def)

lemma ex_init:
  "initial_embedding ex_enc (ex_node i 1) = [4]"
  "initial_embedding ex_enc (ex_node i 0) = [9 / 10]"
  by (simp_all add: initial_embedding_def ex_enc_def ex_node_def ex_user_def ex_movie_def
      UserEmbedding_forward_def MovieEmbedding_forward_def stack_sum_def nd_add_def proj_genre_def
      LeakyReLU_def Dense_forward_def nd_mul_def)

lemma ex_h_new:
  "h_new ex_update [4] [49 / 10] 2 = [129 / 20]"
  by (simp add: h_new_def h_concat_def ex_update_def LeakyReLU_def Dense_forward_def nd_mul_def
      nd_add_def nd_scale_div_def nd_maximum_def)

lemma nd_norm_single: "nd_norm [x] = \<bar>x\<bar>"
  by (simp add: nd_norm_def)

lemma ex_le: "num_blocks ex_nf \<le> length (user_layers ex_enc)"
    "num_blocks ex_nf \<le> length (movie_layers ex_enc)"
  by (simp_all add: ex_blocks)

lemma ex_idx: "(0::nat) < num_blocks ex_nf" "(0::nat) < length (layers ex_nf ! (0 + 1))"
    "(1::nat) < length (layers ex_nf ! (0 + 1))" "(0::nat) < length (layers ex_nf)"
    "(0::nat) < length (layers ex_nf ! 0)" "(1::nat) < length (layers ex_nf ! 0)"
  by (simp_all add: num_blocks_def ex_nf_def)

lemma ex_layers:
  "layers ex_nf ! 0 ! 0 = ex_node 10 1" "layers ex_nf ! 0 ! Suc 0 = ex_node 11 0"
  "layers ex_nf ! Suc 0 ! 0 = ex_node 12 1" "layers ex_nf ! Suc 0 ! Suc 0 = ex_node 13 0"
  "block_in ex_nf 0 0 = [0, 1]" "block_in ex_nf 0 (Suc 0) = []"
  by (simp_all add: ex_nf_def)

lemma ex_params:
  "embedding_size ex_enc = 1" "user_layers ex_enc ! 0 = ex_update"
  "movie_layers ex_enc ! 0 = ex_update"
  "ntype (feat (ex_node i t)) = t"
  by (simp_all add: ex_enc_def ex_node_def)

lemma ex_deep:
  "data_h (layers (encoder_run ex_enc ex_nf) ! 0 ! 0) = Some [4]"
  "data_h (layers (encoder_run ex_enc ex_nf) ! 0 ! Suc 0) = Some [9 / 10]"
  using encoder_run_node(1) [OF ex_flow_ok ex_le ex_idx(4) ex_idx(5)]
    encoder_run_node(1) [OF ex_flow_ok ex_le ex_idx(4) ex_idx(6)]
  by (simp_all add: node_after_def Let_def ex_layers ex_init)

lemma Some_list_eq: "[Some a, Some b] = map Some hs \<Longrightarrow> hs = [a, b]"
  by (cases hs; cases "tl hs") auto

subsection \<open>What the encoder computes\<close>

lemma embed_all_node:
  assumes "flow_ok nf" and "i < length (layers nf)" and "k < length (layers nf ! i)"
  shows "data_h (layers (embed_all self nf) ! i ! k) = Some (initial_embedding self (layers nf ! i ! k))"
proof -
  from assms(1) have ok: "\<forall>l \<in> set (layers nf). layer_ok l" by (simp add: flow_ok_def)
  show ?thesis using assms(2,3) by (simp add: embed_all_layers [OF ok])
qed

lemma dom_seed_map:
  "length embs = length ids \<Longrightarrow> dom (map_of (zip ids embs)) = set ids"
  by (simp add: dom_map_of_zip)

text \<open>
  C2. For a well-formed flow and an encoder with an update block for every block of the
  flow, the value returned by the encoder has one entry for every node of the last
  layer (the seed layer), in the layer's order, and every entry is defined: read as a
  mapping from the seed ids, it is defined on exactly the set of seed ids. The entry of
  seed \<open>k\<close> is the layered embedding at level \<open>L = num_blocks\<close>, that is the result of
  \<open>L\<close> nested updates that start from the initial embeddings of the deepest layer.
\<close>

theorem GraphSageEncoder_output:
  assumes "flow_ok nf"
    and "num_blocks nf \<le> length (user_layers self)"
    and "num_blocks nf \<le> length (movie_layers self)"
  shows "\<exists>embs. GraphSageEncoder_forward self nf = map Some embs
      \<and> length embs = length (last (layers nf))
      \<and> dom (map_of (zip (map nid (last (layers nf))) embs)) = set (map nid (last (layers nf)))
      \<and> (\<forall>k < length (last (layers nf)). embs ! k = layer_embedding self nf (num_blocks nf) k)"
proof -
  let ?embs = "map (layer_embedding self nf (num_blocks nf)) [0..<length (last (layers nf))]"
  have "GraphSageEncoder_forward self nf = map Some ?embs"
    by (simp add: GraphSageEncoder_forward_eq [OF assms] comp_def)
  moreover have "length ?embs = length (last (layers nf))" by simp
  moreover have "dom (map_of (zip (map nid (last (layers nf))) ?embs)) = set (map nid (last (layers nf)))"
    by (rule dom_seed_map) simp
  moreover have "\<forall>k < length (last (layers nf)). ?embs ! k = layer_embedding self nf (num_blocks nf) k"
    by simp
  ultimately show ?thesis by blast
qed

theorem GraphSageEncoder_output_witness:
  "\<exists>embs. GraphSageEncoder_forward ex_enc ex_nf = map Some embs \<and> length embs = 2
      \<and> dom (map_of (zip [12, 13] embs)) = {12, 13}
      \<and> embs ! 0 = layer_embedding ex_enc ex_nf 1 0 \<and> embs ! 1 = layer_embedding ex_enc ex_nf 1 1"
proof -
  have l: "last (layers ex_nf) = [ex_node 12 1, ex_node 13 0]" by (simp add: ex_nf_def)
  from GraphSageEncoder_output [of ex_nf ex_enc, OF ex_flow_ok] obtain embs where
      "GraphSageEncoder_forward ex_enc ex_nf = map Some embs"
      "length embs = length (last (layers ex_nf))"
      "dom (map_of (zip (map nid (last (layers ex_nf))) embs)) = set (map nid (last (layers ex_nf)))"
      "\<forall>k < length (last (layers ex_nf)). embs ! k = layer_embedding ex_enc ex_nf (num_blocks ex_nf) k"
    by (auto simp: ex_blocks)
  then show ?thesis
    by (intro exI [of _ embs]) (simp add: l ex_blocks ex_node_def insert_commute)
qed

text \<open>
  C3. In the flow that the encoder leaves, take the node at position \<open>k\<close> of layer
  \<open>i + 1\<close>, for a block \<open>i\<close>. Its \<^verbatim>\<open>h_agg\<close> is the sum of the final \<^verbatim>\<open>h\<close> of
  its recorded in-neighbours in layer \<open>i\<close> (entry by entry when these have the
  encoder's width), its \<^verbatim>\<open>deg\<close> is their number, and its \<^verbatim>\<open>h\<close> is the
  normalised \<open>h_new\<close>, where \<open>h_new\<close> is the leaky rectifier with slope \<open>0.1\<close> of the
  dense layer of the block chosen by the node's type and by \<open>i\<close>, applied to the
  concatenation of the \<^verbatim>\<open>h\<close> that the node held before the block and of
  \<^verbatim>\<open>h_agg\<close> divided by \<open>max deg 1e-6\<close>.
\<close>

theorem GraphSage_layer_update:
  assumes "flow_ok nf"
    and "num_blocks nf \<le> length (user_layers self)"
    and "num_blocks nf \<le> length (movie_layers self)"
    and "i < num_blocks nf" and "k < length (layers nf ! (i + 1))"
  shows "\<exists>hs h_prev h_agg deg W.
      map (\<lambda>p. data_h (layers (encoder_run self nf) ! i ! p)) (block_in nf i k) = map Some hs
    \<and> h_agg = nd_sum (embedding_size self) hs
    \<and> data_h_agg (layers (encoder_run self nf) ! (i + 1) ! k) = Some h_agg
    \<and> ((\<forall>h \<in> set hs. length h = embedding_size self) \<longrightarrow>
          length h_agg = embedding_size self
        \<and> (\<forall>c < embedding_size self. h_agg ! c = sum_list (map (\<lambda>h. h ! c) hs)))
    \<and> deg = real (length (block_in nf i k))
    \<and> data_deg (layers (encoder_run self nf) ! (i + 1) ! k) = Some deg
    \<and> W = (if ntype (feat (layers nf ! (i + 1) ! k)) = 1 then user_layers self ! i
           else movie_layers self ! i)
    \<and> data_h (layers (embed_all self nf) ! (i + 1) ! k) = Some h_prev
    \<and> h_new W h_prev h_agg deg =
        LeakyReLU (1 / 10)
          (Dense_forward (upd_W W) (h_prev @ nd_scale_div h_agg (max deg (1 / 1000000))))
    \<and> data_h (layers (encoder_run self nf) ! (i + 1) ! k) =
        Some (nd_scale_div (h_new W h_prev h_agg deg)
                (max (nd_norm (h_new W h_prev h_agg deg)) (1 / 1000000)))"
proof -
  let ?L = "layers nf"
  let ?B = "num_blocks nf"
  let ?ins = "block_in nf i k"
  let ?hs = "map (layer_embedding self nf i) ?ins"
  let ?n0 = "?L ! (i + 1) ! k"
  let ?W = "update_block self ?n0 i"
  let ?agg = "nd_sum (embedding_size self) ?hs"
  let ?prev = "initial_embedding self ?n0"
  from assms(4) have i: "i + 1 < length ?L" "i < length ?L" by (simp_all add: num_blocks_def)
  from assms(1) i(1) assms(5) have inr: "\<And>p. p \<in> set ?ins \<Longrightarrow> p < length (?L ! i)"
    by (simp add: flow_ok_def)
  have src: "data_h (layers (encoder_run self nf) ! i ! p) = Some (layer_embedding self nf i p)"
    if "p \<in> set ?ins" for p
    using encoder_run_node(1) [OF assms(1-3) i(2) inr [OF that]] assms(4)
    by (simp add: node_after_h)
  then have a: "map (\<lambda>p. data_h (layers (encoder_run self nf) ! i ! p)) ?ins = map Some ?hs"
    by simp
  have node: "layers (encoder_run self nf) ! (i + 1) ! k = node_after self nf ?B (i + 1) k"
    using assms(1-3) i(1) assms(5) by (rule encoder_run_node(1))
  have b: "data_h_agg (layers (encoder_run self nf) ! (i + 1) ! k) = Some ?agg"
    and d: "data_deg (layers (encoder_run self nf) ! (i + 1) ! k) = Some (real (length ?ins))"
    unfolding node using assms(4) by (simp_all add: node_after_def Let_def)
  have c: "(\<forall>h \<in> set ?hs. length h = embedding_size self) \<longrightarrow>
          length ?agg = embedding_size self
        \<and> (\<forall>c < embedding_size self. ?agg ! c = sum_list (map (\<lambda>h. h ! c) ?hs))"
    using nd_sum_elementwise [of ?hs "embedding_size self"] by blast
  have e: "?W = (if ntype (feat ?n0) = 1 then user_layers self ! i else movie_layers self ! i)"
    by (simp add: update_block_def)
  have f: "data_h (layers (embed_all self nf) ! (i + 1) ! k) = Some ?prev"
    using assms(1) i(1) assms(5) by (rule embed_all_node)
  have g: "h_new ?W ?prev ?agg (real (length ?ins)) =
        LeakyReLU (1 / 10)
          (Dense_forward (upd_W ?W) (?prev @ nd_scale_div ?agg (max (real (length ?ins)) (1 / 1000000))))"
    by (simp add: h_new_def h_concat_def nd_maximum_def)
  have h: "data_h (layers (encoder_run self nf) ! (i + 1) ! k) =
        Some (nd_scale_div (h_new ?W ?prev ?agg (real (length ?ins)))
                (max (nd_norm (h_new ?W ?prev ?agg (real (length ?ins)))) (1 / 1000000)))"
    unfolding node using assms(4)
    by (simp add: node_after_h GraphSageNodeUpdate_forward_def nd_maximum_def)
  from a b c d e f g h show ?thesis by blast
qed

theorem GraphSage_layer_update_witness:
  "data_h_agg (layers (encoder_run ex_enc ex_nf) ! (0 + 1) ! 0) = Some [49 / 10]
   \<and> data_deg (layers (encoder_run ex_enc ex_nf) ! (0 + 1) ! 0) = Some 2
   \<and> data_h (layers (encoder_run ex_enc ex_nf) ! (0 + 1) ! 0) = Some [1]"
proof -
  from GraphSage_layer_update [OF ex_flow_ok ex_le ex_idx(1) ex_idx(2)]
  obtain hs h_prev h_agg deg W where
      a: "map (\<lambda>p. data_h (layers (encoder_run ex_enc ex_nf) ! 0 ! p)) (block_in ex_nf 0 0) = map Some hs"
    and b: "h_agg = nd_sum (embedding_size ex_enc) hs"
    and c: "data_h_agg (layers (encoder_run ex_enc ex_nf) ! (0 + 1) ! 0) = Some h_agg"
    and d: "deg = real (length (block_in ex_nf 0 0))"
    and e: "data_deg (layers (encoder_run ex_enc ex_nf) ! (0 + 1) ! 0) = Some deg"
    and f: "W = (if ntype (feat (layers ex_nf ! (0 + 1) ! 0)) = 1 then user_layers ex_enc ! 0
           else movie_layers ex_enc ! 0)"
    and g: "data_h (layers (embed_all ex_enc ex_nf) ! (0 + 1) ! 0) = Some h_prev"
    and h: "data_h (layers (encoder_run ex_enc ex_nf) ! (0 + 1) ! 0) =
        Some (nd_scale_div (h_new W h_prev h_agg deg)
                (max (nd_norm (h_new W h_prev h_agg deg)) (1 / 1000000)))"
    by blast
  from a have "hs = [[4], [9 / 10]]"
    by (intro Some_list_eq) (simp add: ex_layers ex_deep)
  with b have agg: "h_agg = [49 / 10]"
    by (simp add: nd_sum_def nd_add_def ex_params)
  from d have deg: "deg = 2" by (simp add: ex_layers)
  from f have W: "W = ex_update" by (simp add: ex_layers ex_params)
  from g embed_all_node [OF ex_flow_ok, of "0 + 1" 0 ex_enc] ex_idx(2)
  have prev: "h_prev = [4]"
    by (simp add: ex_layers ex_init num_layers_def ex_nf_def)
  have "nd_scale_div [129 / 20] (max (nd_norm [129 / 20]) (1 / 1000000)) = [1]"
    by (simp add: nd_norm_single nd_scale_div_def)
  with c e h show ?thesis by (simp add: agg deg W prev ex_h_new)
qed

text \<open>
  C4. In the flow that the encoder leaves, the \<^verbatim>\<open>h\<close> of every node of a layer
  \<open>i + 1\<close> is \<open>h_new\<close> divided by \<open>max \<parallel>h_new\<parallel> 1e-6\<close>, and whenever the norm of
  \<open>h_new\<close> exceeds \<open>1e-6\<close> the stored vector has norm \<open>1\<close> (in exact arithmetic). The
  embeddings that the first loop stores, in every layer, and those that the deepest
  layer still holds at the end, are the sums computed by \<^verbatim>\<open>UserEmbedding\<close> and
  \<^verbatim>\<open>MovieEmbedding\<close> as they are, with no division by a norm.
\<close>

theorem GraphSage_normalization:
  assumes "flow_ok nf"
    and "num_blocks nf \<le> length (user_layers self)"
    and "num_blocks nf \<le> length (movie_layers self)"
  shows "(\<forall>i < num_blocks nf. \<forall>k < length (layers nf ! (i + 1)).
          \<exists>x e. x = h_new (update_block self (layers nf ! (i + 1) ! k) i)
                        (initial_embedding self (layers nf ! (i + 1) ! k))
                        (nd_sum (embedding_size self) (map (layer_embedding self nf i) (block_in nf i k)))
                        (real (length (block_in nf i k)))
              \<and> data_h (layers (encoder_run self nf) ! (i + 1) ! k) = Some e
              \<and> e = nd_scale_div x (max (nd_norm x) (1 / 1000000))
              \<and> (1 / 1000000 < nd_norm x \<longrightarrow> nd_norm e = 1))
    \<and> (\<forall>i < length (layers nf). \<forall>k < length (layers nf ! i).
          data_h (layers (embed_all self nf) ! i ! k) =
            Some (if ntype (feat (layers nf ! i ! k)) = 1
                  then UserEmbedding_forward (user_emb self) (feat (layers nf ! i ! k)) (nid (layers nf ! i ! k))
                  else MovieEmbedding_forward (movie_emb self) (feat (layers nf ! i ! k)) (nid (layers nf ! i ! k))))
    \<and> (\<forall>k < length (layers nf ! 0).
          data_h (layers (encoder_run self nf) ! 0 ! k) =
            data_h (layers (embed_all self nf) ! 0 ! k))"
proof (intro conjI allI impI)
  fix i k
  assume i: "i < num_blocks nf" and k: "k < length (layers nf ! (i + 1))"
  let ?x = "h_new (update_block self (layers nf ! (i + 1) ! k) i)
                        (initial_embedding self (layers nf ! (i + 1) ! k))
                        (nd_sum (embedding_size self) (map (layer_embedding self nf i) (block_in nf i k)))
                        (real (length (block_in nf i k)))"
  let ?e = "nd_scale_div ?x (max (nd_norm ?x) (1 / 1000000))"
  from i have i1: "i + 1 < length (layers nf)" by (simp add: num_blocks_def)
  have node: "layers (encoder_run self nf) ! (i + 1) ! k = node_after self nf (num_blocks nf) (i + 1) k"
    using assms i1 k by (rule encoder_run_node(1))
  have st: "data_h (layers (encoder_run self nf) ! (i + 1) ! k) = Some ?e"
    unfolding node using i
    by (simp add: node_after_h GraphSageNodeUpdate_forward_def nd_maximum_def)
  have "1 / 1000000 < nd_norm ?x \<longrightarrow> nd_norm ?e = 1"
    using nd_norm_normalize [of ?x] by (simp add: nd_maximum_def)
  with st show "\<exists>x e. x = ?x \<and> data_h (layers (encoder_run self nf) ! (i + 1) ! k) = Some e
              \<and> e = nd_scale_div x (max (nd_norm x) (1 / 1000000))
              \<and> (1 / 1000000 < nd_norm x \<longrightarrow> nd_norm e = 1)"
    by blast
next
  fix i k
  assume "i < length (layers nf)" and "k < length (layers nf ! i)"
  with assms(1) show "data_h (layers (embed_all self nf) ! i ! k) =
            Some (if ntype (feat (layers nf ! i ! k)) = 1
                  then UserEmbedding_forward (user_emb self) (feat (layers nf ! i ! k)) (nid (layers nf ! i ! k))
                  else MovieEmbedding_forward (movie_emb self) (feat (layers nf ! i ! k)) (nid (layers nf ! i ! k)))"
    by (simp add: embed_all_node initial_embedding_def)
next
  fix k
  assume k: "k < length (layers nf ! 0)"
  from assms(1) have z: "0 < length (layers nf)" by (simp add: flow_ok_def)
  from encoder_run_node(1) [OF assms z k] embed_all_node [OF assms(1) z k]
  show "data_h (layers (encoder_run self nf) ! 0 ! k) = data_h (layers (embed_all self nf) ! 0 ! k)"
    by (simp add: node_after_def Let_def)
qed

theorem GraphSage_normalization_witness:
  "(\<exists>e. data_h (layers (encoder_run ex_enc ex_nf) ! (0 + 1) ! 0) = Some e \<and> nd_norm e = 1)
   \<and> (\<exists>e. data_h (layers (embed_all ex_enc ex_nf) ! 0 ! 0) = Some e \<and> nd_norm e = 4)
   \<and> (\<exists>e. data_h (layers (encoder_run ex_enc ex_nf) ! 0 ! 0) = Some e \<and> nd_norm e = 4)"
proof -
  note t = GraphSage_normalization [OF ex_flow_ok ex_le]
  from t ex_idx(1,2) obtain x e where
      x: "x = h_new (update_block ex_enc (layers ex_nf ! (0 + 1) ! 0) 0)
                        (initial_embedding ex_enc (layers ex_nf ! (0 + 1) ! 0))
                        (nd_sum (embedding_size ex_enc) (map (layer_embedding ex_enc ex_nf 0) (block_in ex_nf 0 0)))
                        (real (length (block_in ex_nf 0 0)))"
    and e: "data_h (layers (encoder_run ex_enc ex_nf) ! (0 + 1) ! 0) = Some e"
    and n: "1 / 1000000 < nd_norm x \<longrightarrow> nd_norm e = 1"
    by blast
  have "nd_sum (embedding_size ex_enc) (map (layer_embedding ex_enc ex_nf 0) (block_in ex_nf 0 0))
      = [49 / 10]"
    by (simp add: ex_layers ex_init nd_sum_def nd_add_def ex_params)
  with x have "x = [129 / 20]"
    by (simp add: ex_layers ex_init update_block_def ex_params ex_h_new)
  with n have n1: "nd_norm e = 1" by (simp add: nd_norm_single)
  from t ex_idx(4,5) have "data_h (layers (embed_all ex_enc ex_nf) ! 0 ! 0) =
            Some (if ntype (feat (layers ex_nf ! 0 ! 0)) = 1
                  then UserEmbedding_forward (user_emb ex_enc) (feat (layers ex_nf ! 0 ! 0)) (nid (layers ex_nf ! 0 ! 0))
                  else MovieEmbedding_forward (movie_emb ex_enc) (feat (layers ex_nf ! 0 ! 0)) (nid (layers ex_nf ! 0 ! 0)))"
    by blast
  then have i0: "data_h (layers (embed_all ex_enc ex_nf) ! 0 ! 0) = Some [4]"
    using ex_init(1) [of 10] by (simp add: ex_layers initial_embedding_def ex_params)
  from t ex_idx(5) have "data_h (layers (encoder_run ex_enc ex_nf) ! 0 ! 0)
      = data_h (layers (embed_all ex_enc ex_nf) ! 0 ! 0)"
    by blast
  with i0 have r0: "data_h (layers (encoder_run ex_enc ex_nf) ! 0 ! 0) = Some [4]" by simp
  from e n1 i0 r0 show ?thesis by (simp add: nd_norm_single)
qed

text \<open>
  C5. Take a node at position \<open>k\<close> of a layer \<open>i + 1\<close> for which block \<open>i\<close> records no
  in-neighbour. In the flow that the encoder leaves, its \<^verbatim>\<open>h_agg\<close> is the zero
  vector of the encoder's width and its \<^verbatim>\<open>deg\<close> is \<open>0\<close>. The update with checked
  divisions, run on the \<^verbatim>\<open>h\<close> that the node held, this \<^verbatim>\<open>h_agg\<close> and this
  \<^verbatim>\<open>deg\<close>, has a value, the one that the node holds at the end: neither the
  division of \<^verbatim>\<open>h_agg\<close> nor the division of \<open>h_new\<close> is by zero. The value is
  computed from the node's own \<^verbatim>\<open>h\<close> followed by zeros. For every input, whatever
  the degree, the update with checked divisions has a value, and it is the value that
  the update has with the quotients of real arithmetic: no division of the update is
  ever by zero.
\<close>

theorem zero_degree_update:
  assumes "flow_ok nf"
    and "num_blocks nf \<le> length (user_layers self)"
    and "num_blocks nf \<le> length (movie_layers self)"
    and "i < num_blocks nf" and "k < length (layers nf ! (i + 1))"
    and "block_in nf i k = []"
  shows "\<exists>W h_prev x e.
      data_h_agg (layers (encoder_run self nf) ! (i + 1) ! k) = Some (replicate (embedding_size self) 0)
    \<and> data_deg (layers (encoder_run self nf) ! (i + 1) ! k) = Some 0
    \<and> W = update_block self (layers nf ! (i + 1) ! k) i
    \<and> data_h (layers (embed_all self nf) ! (i + 1) ! k) = Some h_prev
    \<and> GraphSageNodeUpdate_forward_checked W h_prev (replicate (embedding_size self) 0) 0 = Some e
    \<and> data_h (layers (encoder_run self nf) ! (i + 1) ! k) = Some e
    \<and> x = LeakyReLU (1 / 10)
            (Dense_forward (upd_W W) (h_prev @ replicate (embedding_size self) 0))
    \<and> e = map (\<lambda>y. y / nd_maximum (nd_norm x) (1 / 1000000)) x
    \<and> (\<forall>W' h h_agg deg. GraphSageNodeUpdate_forward_checked W' h h_agg deg
          = Some (GraphSageNodeUpdate_forward W' h h_agg deg))"
proof -
  let ?d = "embedding_size self"
  let ?n0 = "layers nf ! (i + 1) ! k"
  let ?W = "update_block self ?n0 i"
  let ?prev = "initial_embedding self ?n0"
  let ?x = "LeakyReLU (1 / 10) (Dense_forward (upd_W ?W) (?prev @ replicate ?d 0))"
  let ?e = "map (\<lambda>y. y / nd_maximum (nd_norm ?x) (1 / 1000000)) ?x"
  from assms(4) have i1: "i + 1 < length (layers nf)" by (simp add: num_blocks_def)
  have node: "layers (encoder_run self nf) ! (i + 1) ! k = node_after self nf (num_blocks nf) (i + 1) k"
    using assms(1-3) i1 assms(5) by (rule encoder_run_node(1))
  have a: "data_h_agg (layers (encoder_run self nf) ! (i + 1) ! k) = Some (replicate ?d 0)"
    and b: "data_deg (layers (encoder_run self nf) ! (i + 1) ! k) = Some 0"
    unfolding node using assms(4,6) by (simp_all add: node_after_def Let_def nd_sum_Nil)
  have p: "data_h (layers (embed_all self nf) ! (i + 1) ! k) = Some ?prev"
    using assms(1) i1 assms(5) by (rule embed_all_node)
  have q: "nd_divide (replicate ?d 0) (nd_maximum 0 (1 / 1000000)) = Some (replicate ?d 0)"
    by (simp add: nd_divide_def nd_maximum_def)
  have f: "GraphSageNodeUpdate_forward_checked ?W ?prev (replicate ?d 0) 0 = Some ?e"
    unfolding GraphSageNodeUpdate_forward_checked_def q
    by (simp add: Let_def nd_divide_floor nd_scale_div_def)
  have "data_h (layers (encoder_run self nf) ! (i + 1) ! k)
      = Some (GraphSageNodeUpdate_forward ?W ?prev (replicate ?d 0) 0)"
    unfolding node using assms(4,6) by (simp add: node_after_h nd_sum_Nil)
  with f have h: "data_h (layers (encoder_run self nf) ! (i + 1) ! k) = Some ?e"
    by (simp add: forward_checked_value)
  have all: "\<forall>W' h h_agg deg. GraphSageNodeUpdate_forward_checked W' h h_agg deg
          = Some (GraphSageNodeUpdate_forward W' h h_agg deg)"
    by (simp add: forward_checked_value)
  from a b p f h all show ?thesis by blast
qed

theorem zero_degree_update_witness:
  "data_h_agg (layers (encoder_run ex_enc ex_nf) ! (0 + 1) ! 1) = Some [0]
   \<and> data_deg (layers (encoder_run ex_enc ex_nf) ! (0 + 1) ! 1) = Some 0
   \<and> GraphSageNodeUpdate_forward_checked ex_update [9 / 10] [0] 0 = Some [1]
   \<and> data_h (layers (encoder_run ex_enc ex_nf) ! (0 + 1) ! 1) = Some [1]"
proof -
  have b: "block_in ex_nf 0 1 = []" by (simp add: ex_nf_def)
  from zero_degree_update [OF ex_flow_ok ex_le ex_idx(1) ex_idx(3) b]
  obtain W h_prev x e where
      a: "data_h_agg (layers (encoder_run ex_enc ex_nf) ! (0 + 1) ! 1)
            = Some (replicate (embedding_size ex_enc) 0)"
    and d: "data_deg (layers (encoder_run ex_enc ex_nf) ! (0 + 1) ! 1) = Some 0"
    and W: "W = update_block ex_enc (layers ex_nf ! (0 + 1) ! 1) 0"
    and p: "data_h (layers (embed_all ex_enc ex_nf) ! (0 + 1) ! 1) = Some h_prev"
    and f: "GraphSageNodeUpdate_forward_checked W h_prev (replicate (embedding_size ex_enc) 0) 0 = Some e"
    and h: "data_h (layers (encoder_run ex_enc ex_nf) ! (0 + 1) ! 1) = Some e"
    and x: "x = LeakyReLU (1 / 10)
            (Dense_forward (upd_W W) (h_prev @ replicate (embedding_size ex_enc) 0))"
    and e: "e = map (\<lambda>y. y / nd_maximum (nd_norm x) (1 / 1000000)) x"
    by blast
  from W have W': "W = ex_update" by (simp add: update_block_def ex_layers ex_params)
  have l: "(0::nat) + 1 < length (layers ex_nf)" by (simp add: ex_nf_def)
  from p embed_all_node [OF ex_flow_ok l ex_idx(3), of ex_enc] have p': "h_prev = [9 / 10]"
    by (simp add: ex_layers ex_init)
  from x have x': "x = [9 / 10]"
    by (simp add: W' p' ex_params ex_update_def LeakyReLU_def Dense_forward_def nd_mul_def nd_add_def)
  from e have e': "e = [1]"
    by (simp add: x' nd_norm_single nd_maximum_def)
  from a d f h show ?thesis by (simp add: ex_params W' p' e')
qed

text \<open>
  C10. The first loop of the encoder stores, for every node of every layer of the flow,
  the node's initial embedding as \<^verbatim>\<open>h\<close>. In the flow that the encoder leaves, the
  \<^verbatim>\<open>h\<close> of a node of layer \<open>i + 1\<close> is the update, by the block chosen by its type
  and \<open>i\<close>, of that same initial embedding with the node's \<^verbatim>\<open>h_agg\<close> and
  \<^verbatim>\<open>deg\<close>: the vector concatenated with the aggregate is the node's initial
  embedding at every layer. The nodes of the deepest layer keep their initial embedding,
  so for the block above the deepest layer the embeddings that are aggregated are
  initial embeddings too.
\<close>

theorem update_reads_initial_embedding:
  assumes "flow_ok nf"
    and "num_blocks nf \<le> length (user_layers self)"
    and "num_blocks nf \<le> length (movie_layers self)"
  shows "(\<forall>i < length (layers nf). \<forall>k < length (layers nf ! i).
          data_h (layers (embed_all self nf) ! i ! k)
            = Some (initial_embedding self (layers nf ! i ! k)))
    \<and> (\<forall>i < num_blocks nf. \<forall>k < length (layers nf ! (i + 1)).
          \<exists>h_agg deg.
              data_h_agg (layers (encoder_run self nf) ! (i + 1) ! k) = Some h_agg
            \<and> data_deg (layers (encoder_run self nf) ! (i + 1) ! k) = Some deg
            \<and> data_h (layers (encoder_run self nf) ! (i + 1) ! k)
                = Some (GraphSageNodeUpdate_forward (update_block self (layers nf ! (i + 1) ! k) i)
                          (initial_embedding self (layers nf ! (i + 1) ! k)) h_agg deg)
            \<and> h_concat (initial_embedding self (layers nf ! (i + 1) ! k)) h_agg deg
                = initial_embedding self (layers nf ! (i + 1) ! k)
                  @ nd_scale_div h_agg (nd_maximum deg (1 / 1000000)))
    \<and> (\<forall>k < length (layers nf ! 0).
          data_h (layers (encoder_run self nf) ! 0 ! k)
            = Some (initial_embedding self (layers nf ! 0 ! k)))"
proof (intro conjI allI impI)
  fix i k
  assume "i < length (layers nf)" and "k < length (layers nf ! i)"
  with assms(1) show "data_h (layers (embed_all self nf) ! i ! k)
            = Some (initial_embedding self (layers nf ! i ! k))"
    by (rule embed_all_node)
next
  fix i k
  assume i: "i < num_blocks nf" and k: "k < length (layers nf ! (i + 1))"
  from i have i1: "i + 1 < length (layers nf)" by (simp add: num_blocks_def)
  let ?agg = "nd_sum (embedding_size self) (map (layer_embedding self nf i) (block_in nf i k))"
  let ?deg = "real (length (block_in nf i k))"
  have node: "layers (encoder_run self nf) ! (i + 1) ! k = node_after self nf (num_blocks nf) (i + 1) k"
    using assms i1 k by (rule encoder_run_node(1))
  have "data_h_agg (layers (encoder_run self nf) ! (i + 1) ! k) = Some ?agg"
    and "data_deg (layers (encoder_run self nf) ! (i + 1) ! k) = Some ?deg"
    and "data_h (layers (encoder_run self nf) ! (i + 1) ! k)
                = Some (GraphSageNodeUpdate_forward (update_block self (layers nf ! (i + 1) ! k) i)
                          (initial_embedding self (layers nf ! (i + 1) ! k)) ?agg ?deg)"
    unfolding node using i by (simp_all add: node_after_def Let_def)
  moreover have "h_concat (initial_embedding self (layers nf ! (i + 1) ! k)) ?agg ?deg
                = initial_embedding self (layers nf ! (i + 1) ! k)
                  @ nd_scale_div ?agg (nd_maximum ?deg (1 / 1000000))"
    by (simp add: h_concat_def)
  ultimately show "\<exists>h_agg deg.
              data_h_agg (layers (encoder_run self nf) ! (i + 1) ! k) = Some h_agg
            \<and> data_deg (layers (encoder_run self nf) ! (i + 1) ! k) = Some deg
            \<and> data_h (layers (encoder_run self nf) ! (i + 1) ! k)
                = Some (GraphSageNodeUpdate_forward (update_block self (layers nf ! (i + 1) ! k) i)
                          (initial_embedding self (layers nf ! (i + 1) ! k)) h_agg deg)
            \<and> h_concat (initial_embedding self (layers nf ! (i + 1) ! k)) h_agg deg
                = initial_embedding self (layers nf ! (i + 1) ! k)
                  @ nd_scale_div h_agg (nd_maximum deg (1 / 1000000))"
    by blast
next
  fix k
  assume k: "k < length (layers nf ! 0)"
  from assms(1) have z: "0 < length (layers nf)" by (simp add: flow_ok_def)
  from encoder_run_node(1) [OF assms z k]
  show "data_h (layers (encoder_run self nf) ! 0 ! k) = Some (initial_embedding self (layers nf ! 0 ! k))"
    by (simp add: node_after_def Let_def)
qed

theorem update_reads_initial_embedding_witness:
  "data_h (layers (embed_all ex_enc ex_nf) ! (0 + 1) ! 0) = Some [4]
   \<and> (\<exists>h_agg deg. data_h (layers (encoder_run ex_enc ex_nf) ! (0 + 1) ! 0)
         = Some (GraphSageNodeUpdate_forward ex_update [4] h_agg deg))
   \<and> data_h (layers (encoder_run ex_enc ex_nf) ! 0 ! 0) = Some [4]"
proof -
  note t = update_reads_initial_embedding [OF ex_flow_ok ex_le]
  have l: "(0::nat) + 1 < length (layers ex_nf)" by (simp add: ex_nf_def)
  from t l ex_idx(2) have "data_h (layers (embed_all ex_enc ex_nf) ! (0 + 1) ! 0)
            = Some (initial_embedding ex_enc (layers ex_nf ! (0 + 1) ! 0))"
    by blast
  then have a: "data_h (layers (embed_all ex_enc ex_nf) ! (0 + 1) ! 0) = Some [4]"
    by (simp add: ex_layers ex_init)
  from t ex_idx(1,2) obtain h_agg deg where
    "data_h (layers (encoder_run ex_enc ex_nf) ! (0 + 1) ! 0)
                = Some (GraphSageNodeUpdate_forward (update_block ex_enc (layers ex_nf ! (0 + 1) ! 0) 0)
                          (initial_embedding ex_enc (layers ex_nf ! (0 + 1) ! 0)) h_agg deg)"
    by blast
  then have b: "data_h (layers (encoder_run ex_enc ex_nf) ! (0 + 1) ! 0)
         = Some (GraphSageNodeUpdate_forward ex_update [4] h_agg deg)"
    by (simp add: ex_layers ex_init update_block_def ex_params)
  from t ex_idx(5) have "data_h (layers (encoder_run ex_enc ex_nf) ! 0 ! 0)
            = Some (initial_embedding ex_enc (layers ex_nf ! 0 ! 0))"
    by blast
  then have c: "data_h (layers (encoder_run ex_enc ex_nf) ! 0 ! 0) = Some [4]"
    by (simp add: ex_layers ex_init)
  from a b c show ?thesis by blast
qed

lemma initial_embedding_by_type:
  assumes "flow_ok nf" and "i < length (layers nf)" and "k < length (layers nf ! i)"
  shows "\<exists>n U M. n = layers nf ! i ! k \<and> U = user_emb self \<and> M = movie_emb self
    \<and> data_h (layers (embed_all self nf) ! i ! k) =
        Some (if ntype (feat n) = 1
              then nd_add (user_node_emb U (nid n + 1))
                     (nd_add (nd_add (nd_add (emb_age U (age (feat n))) (emb_gender U (gender (feat n))))
                                     (emb_occupation U (occupation (feat n))))
                             (emb_zip U (zipcode (feat n))))
              else nd_add (movie_node_emb M (nid n + 1))
                     (nd_add (emb_year M (year (feat n)))
                             (LeakyReLU (1 / 10)
                                (Dense_forward (proj_genre_dense M) (genre (feat n))))))"
  using embed_all_node [OF assms, of self]
  by (simp add: initial_embedding_def UserEmbedding_forward_def MovieEmbedding_forward_def
      stack_sum_def proj_genre_def)

lemma ex_ids_flow_ok: "flow_ok ex_nf_ids"
  by (auto simp: flow_ok_def layer_ok_def ex_nf_ids_def ex_node_def less_Suc_eq)

lemma ex_ids_layers:
  "layers ex_nf_ids ! 0 ! 0 = ex_node 0 1" "layers ex_nf_ids ! 0 ! Suc 0 = ex_node 1 0"
  "layers ex_nf_ids ! Suc 0 ! 0 = ex_node 2 1"
  "(0::nat) < length (layers ex_nf_ids)" "Suc 0 < length (layers ex_nf_ids)"
  "(0::nat) < length (layers ex_nf_ids ! 0)" "Suc 0 < length (layers ex_nf_ids ! 0)"
  "(0::nat) < length (layers ex_nf_ids ! Suc 0)"
  by (simp_all add: ex_nf_ids_def)

text \<open>
  C6. The property: the initial embedding of a node is the row of the node table at the
  node's id plus the rows of the attribute tables of its type, where a movie has the row
  of the year table plus a dense linear projection of its genre vector. The code departs
  from it twice, as the small flow with DGL's ids shows. The first loop hands the
  embedding blocks the ids of the flow, so the node table is read at the flow id plus
  one: the graph's user \<open>21\<close> gets \<open>[4]\<close> in the deepest layer and \<open>[6]\<close> in the seed layer
  (rows \<open>1\<close> and \<open>3\<close>), where the row of the user, \<open>22\<close>, gives \<open>[25]\<close> in both. And the
  genre projection ends in a leaky rectifier: the movie gets \<open>[9 / 10]\<close>, where the dense
  layer alone gives \<open>[0]\<close>.
\<close>

theorem initial_embedding_code_departs:
  "parent_nid (layers ex_nf_ids ! 0 ! 0) = 21
   \<and> parent_nid (layers ex_nf_ids ! 1 ! 0) = 21
   \<and> data_h (layers (embed_all ex_enc_rows ex_nf_ids) ! 0 ! 0) = Some [4]
   \<and> data_h (layers (embed_all ex_enc_rows ex_nf_ids) ! 1 ! 0) = Some [6]
   \<and> nd_add (user_node_emb (user_emb ex_enc_rows) (21 + 1))
        (nd_add (nd_add (nd_add (emb_age (user_emb ex_enc_rows) 0) (emb_gender (user_emb ex_enc_rows) 0))
                        (emb_occupation (user_emb ex_enc_rows) 0))
                (emb_zip (user_emb ex_enc_rows) 0)) = [25]
   \<and> parent_nid (layers ex_nf_ids ! 0 ! 1) = 31
   \<and> data_h (layers (embed_all ex_enc_rows ex_nf_ids) ! 0 ! 1) = Some [9 / 10]
   \<and> nd_add (movie_node_emb (movie_emb ex_enc_rows) (31 + 1))
        (nd_add (emb_year (movie_emb ex_enc_rows) 0)
                (Dense_forward (proj_genre_dense (movie_emb ex_enc_rows)) [-1])) = [0]"
proof -
  have u: "user_emb ex_enc_rows = ex_user\<lparr>user_node_emb := (\<lambda>i. [real i])\<rparr>"
    and m: "movie_emb ex_enc_rows = ex_movie"
    by (simp_all add: ex_enc_rows_def ex_enc_def)
  have iu: "initial_embedding ex_enc_rows (ex_node i 1) = [real i + 4]" for i
    by (simp add: initial_embedding_def u ex_node_def ex_user_def UserEmbedding_forward_def
        stack_sum_def nd_add_def)
  have im: "initial_embedding ex_enc_rows (ex_node i 0) = [9 / 10]" for i
    by (simp add: initial_embedding_def m ex_node_def ex_movie_def MovieEmbedding_forward_def
        stack_sum_def nd_add_def proj_genre_def LeakyReLU_def Dense_forward_def nd_mul_def)
  have a: "data_h (layers (embed_all ex_enc_rows ex_nf_ids) ! 0 ! 0) = Some [4]"
    using embed_all_node [OF ex_ids_flow_ok ex_ids_layers(4) ex_ids_layers(6), of ex_enc_rows]
    by (simp add: ex_ids_layers iu)
  have b: "data_h (layers (embed_all ex_enc_rows ex_nf_ids) ! 1 ! 0) = Some [6]"
    using embed_all_node [OF ex_ids_flow_ok ex_ids_layers(5) ex_ids_layers(8), of ex_enc_rows]
    by (simp add: ex_ids_layers iu)
  have c: "data_h (layers (embed_all ex_enc_rows ex_nf_ids) ! 0 ! 1) = Some [9 / 10]"
    using embed_all_node [OF ex_ids_flow_ok ex_ids_layers(4) ex_ids_layers(7), of ex_enc_rows]
    by (simp add: ex_ids_layers im)
  have p: "parent_nid (layers ex_nf_ids ! 0 ! 0) = 21" "parent_nid (layers ex_nf_ids ! 1 ! 0) = 21"
    "parent_nid (layers ex_nf_ids ! 0 ! 1) = 31"
    by (simp_all add: ex_ids_layers ex_node_def)
  have d: "nd_add (user_node_emb (user_emb ex_enc_rows) (21 + 1))
        (nd_add (nd_add (nd_add (emb_age (user_emb ex_enc_rows) 0) (emb_gender (user_emb ex_enc_rows) 0))
                        (emb_occupation (user_emb ex_enc_rows) 0))
                (emb_zip (user_emb ex_enc_rows) 0)) = [25]"
    by (simp add: u ex_user_def nd_add_def)
  have e: "nd_add (movie_node_emb (movie_emb ex_enc_rows) (31 + 1))
        (nd_add (emb_year (movie_emb ex_enc_rows) 0)
                (Dense_forward (proj_genre_dense (movie_emb ex_enc_rows)) [-1])) = [0]"
    by (simp add: m ex_movie_def nd_add_def Dense_forward_def nd_mul_def)
  from p a b d c e show ?thesis by blast
qed

subsection \<open>The neighbour sampler\<close>

lemma sample_props:
  "sample rnd t m pool = (s, t') \<Longrightarrow> length s \<le> m \<and> set s \<subseteq> set pool"
proof (induction m arbitrary: t pool s t')
  case 0
  then show ?case by simp
next
  case (Suc m)
  show ?case
  proof (cases "pool = []")
    case True
    with Suc.prems show ?thesis by simp
  next
    case False
    let ?j = "rnd t mod length pool"
    let ?pool' = "take ?j pool @ drop (?j + 1) pool"
    obtain rest t1 where r: "sample rnd (t + 1) m ?pool' = (rest, t1)"
      by (cases "sample rnd (t + 1) m ?pool'")
    with Suc.prems False have s: "s = pool ! ?j # rest" by (simp add: Let_def)
    from Suc.IH [OF r] have ih: "length rest \<le> m" "set rest \<subseteq> set ?pool'" by simp_all
    have "set ?pool' \<subseteq> set pool"
      using set_take_subset [of ?j pool] set_drop_subset [of "?j + 1" pool] by auto
    moreover from False have "pool ! ?j \<in> set pool" by simp
    ultimately show ?thesis using ih s by auto
  qed
qed

lemma sample_layer_props:
  "sample_layer g rnd K t vs = (bs, t') \<Longrightarrow> map fst bs = vs \<and> (\<forall>b \<in> set bs. block_ok g K b)"
proof (induction vs arbitrary: t bs t')
  case Nil
  then show ?case by simp
next
  case (Cons v vs)
  obtain s t1 where s: "sample rnd t (min K (length (neighbors g v))) (neighbors g v) = (s, t1)"
    by (cases "sample rnd t (min K (length (neighbors g v))) (neighbors g v)")
  obtain bs' t2 where r: "sample_layer g rnd K t1 vs = (bs', t2)"
    by (cases "sample_layer g rnd K t1 vs")
  from Cons.prems s r have bs: "bs = (v, s @ (if v \<in> set s then [] else [v])) # bs'" by simp
  from sample_props [OF s] have sp: "length s \<le> K" "set s \<subseteq> set (neighbors g v)" by simp_all
  have "length (filter (\<lambda>u. u \<noteq> v) s) \<le> K"
    using length_filter_le [of "\<lambda>u. u \<noteq> v" s] sp(1) by (rule le_trans)
  with sp have "block_ok g K (v, s @ (if v \<in> set s then [] else [v]))"
    by (auto simp: block_ok_def)
  with Cons.IH [OF r] bs show ?case by simp
qed

lemma build_layers_props:
  "build_layers g rnd K L t layer = (ls, bls) \<Longrightarrow>
     length bls = L \<and> length ls = L + 1
     \<and> (\<forall>i < L. map fst (bls ! i) = ls ! i \<and> (\<forall>b \<in> set (bls ! i). block_ok g K b))"
proof (induction L arbitrary: t layer ls bls)
  case 0
  then show ?case by auto
next
  case (Suc L)
  obtain bs t1 where b: "sample_layer g rnd K t layer = (bs, t1)"
    by (cases "sample_layer g rnd K t layer")
  obtain ls' bls' where r: "build_layers g rnd K L t1 (remdups (concat (map snd bs))) = (ls', bls')"
    by (cases "build_layers g rnd K L t1 (remdups (concat (map snd bs)))")
  from Suc.prems b r have eq: "ls = layer # ls'" "bls = bs # bls'" by simp_all
  note ih = Suc.IH [OF r]
  note sl = sample_layer_props [OF b]
  show ?case
  proof (intro conjI allI impI)
    show "length bls = Suc L" "length ls = Suc L + 1" using ih eq by simp_all
  next
    fix i assume "i < Suc L"
    then show "map fst (bls ! i) = ls ! i" using ih sl eq by (cases i) simp_all
  next
    fix i assume "i < Suc L"
    then show "\<forall>b \<in> set (bls ! i). block_ok g K b" using ih sl eq by (cases i) simp_all
  qed
qed

lemma ex_flow:
  "build_flow ex_graph ex_rnd [21] 2 1 =
     \<lparr> flow_layers = [[21], [31, 32, 21]], flow_blocks = [[(21, [31, 32, 21])]] \<rparr>"
  by (simp add: build_flow_def ex_graph_def ex_rnd_def numeral_2_eq_2 Let_def)

text \<open>
  C1, with the bound \<open>K + 1\<close> in place of \<open>K\<close>. In a flow built with fan-out \<open>K\<close> and
  depth \<open>L\<close>, the blocks between layer \<open>i\<close> and layer \<open>i + 1\<close>, for \<open>i < L\<close>, are
  recorded for exactly the nodes of layer \<open>i\<close>. The block recorded for a node \<open>v\<close> has
  at most \<open>K\<close> entries other than \<open>v\<close>, so at most \<open>K + 1\<close> entries; it contains \<open>v\<close>
  itself, and it holds only neighbours of \<open>v\<close> in the Graph Store or \<open>v\<close>.
\<close>

theorem sampled_block:
  assumes "i < L"
    and "(v, ns) \<in> set (flow_blocks (build_flow g rnd seed_nodes K L) ! i)"
  shows "map fst (flow_blocks (build_flow g rnd seed_nodes K L) ! i)
           = flow_layers (build_flow g rnd seed_nodes K L) ! i
    \<and> length (filter (\<lambda>u. u \<noteq> v) ns) \<le> K
    \<and> length ns \<le> K + 1
    \<and> v \<in> set ns
    \<and> set ns \<subseteq> set (neighbors g v) \<union> {v}"
proof -
  obtain ls bls where b: "build_layers g rnd K L 0 (remdups seed_nodes) = (ls, bls)"
    by (cases "build_layers g rnd K L 0 (remdups seed_nodes)")
  then have f: "flow_layers (build_flow g rnd seed_nodes K L) = ls"
      "flow_blocks (build_flow g rnd seed_nodes K L) = bls"
    by (simp_all add: build_flow_def)
  from build_layers_props [OF b] assms(1)
  have "map fst (bls ! i) = ls ! i" and "\<forall>b \<in> set (bls ! i). block_ok g K b" by simp_all
  with assms(2) show ?thesis by (auto simp: f block_ok_def)
qed

theorem sampled_block_witness:
  "length (filter (\<lambda>u. u \<noteq> 21) [31, 32, 21 :: nat]) \<le> 2
   \<and> length [31, 32, 21 :: nat] \<le> 2 + 1
   \<and> (21 :: nat) \<in> set [31, 32, 21]
   \<and> set [31, 32, 21] \<subseteq> set (neighbors ex_graph 21) \<union> {21}"
proof -
  have i: "(0::nat) < 1" by simp
  have m: "(21, [31, 32, 21]) \<in> set (flow_blocks (build_flow ex_graph ex_rnd [21] 2 1) ! 0)"
    unfolding ex_flow by simp
  from sampled_block [OF i m] show ?thesis by blast
qed

theorem sampled_block_exceeds_fanout:
  "(21, [31, 32, 21]) \<in> set (flow_blocks (build_flow ex_graph ex_rnd [21] 2 1) ! 0)
   \<and> \<not> length [31, 32, 21 :: nat] \<le> 2"
  unfolding ex_flow by simp

end
